theory Spec2Isabelle
  imports Main "HOL-Library.Multiset"
begin

section \<open>Data model of binary-search-tree.js\<close>

text \<open>
  A \<open>Node\<close> object holds \<open>val\<close>, \<open>left\<close> and \<open>right\<close>; a child link is either
  \<open>null\<close> or another \<open>Node\<close>. The methods are modelled twice. In the first model, the
  links of a tree being exclusive parent-to-child edges, the object graph below
  \<open>this.root\<close> is read as a value of the datatype below, with \<open>Null\<close> for the JavaScript
  \<open>null\<close>, and an assignment to a field of a node is the replacement of a subtree. In the
  second model (the object graph with node identities, further down) the statements of
  the source run on a store of objects; on tree-shaped object graphs every method of the
  second model is proved to give what the first model gives. Values are taken from a
  linear order, as the comparisons \<open><\<close>, \<open>>\<close> and \<open>===\<close> of the source are used on
  them.
\<close>

datatype 'a tree = Null | Node "'a tree" 'a "'a tree"

text \<open>Reading a property of \<open>null\<close> throws a \<open>TypeError\<close> in JavaScript.\<close>

datatype error = TypeError

section \<open>insert and insertRecursively\<close>

text \<open>
  The \<open>while (true)\<close> loop of \<open>insert\<close>. The in-place assignment to \<open>current.left\<close>
  (or \<open>current.right\<close>) at the end of the search path is rendered by rebuilding the path.
  When neither \<open>val < current.val\<close> nor \<open>val > current.val\<close> holds, no branch of the
  loop body changes \<open>current\<close> or returns, so the loop is entered again in the same state.
  \<open>None\<close> stands for a call that does not return.
\<close>

partial_function (option) insert_loop :: "'a::linorder \<Rightarrow> 'a tree \<Rightarrow> (error + 'a tree) option" where
  "insert_loop v current =
     (case current of
        Null \<Rightarrow> Some (Inl TypeError)
      | Node l x r \<Rightarrow>
          if v < x then
            (if l = Null then Some (Inr (Node (Node Null v Null) x r))
             else Option.bind (insert_loop v l)
                    (\<lambda>res. Some (case res of Inl e \<Rightarrow> Inl e | Inr l' \<Rightarrow> Inr (Node l' x r))))
          else if v > x then
            (if r = Null then Some (Inr (Node l x (Node Null v Null)))
             else Option.bind (insert_loop v r)
                    (\<lambda>res. Some (case res of Inl e \<Rightarrow> Inl e | Inr r' \<Rightarrow> Inr (Node l x r'))))
          else insert_loop v current)"

declare insert_loop.simps [code]

definition insert :: "'a::linorder \<Rightarrow> 'a tree \<Rightarrow> (error + 'a tree) option" where
  "insert v root = (if root = Null then Some (Inr (Node Null v Null)) else insert_loop v root)"

text \<open>
  \<open>insertRecursively(val, current)\<close> below a non-empty root. The second branch is a plain
  \<open>else\<close>: a value equal to \<open>current.val\<close> is sent to the right.
\<close>

fun insertRecursively_at :: "'a::linorder \<Rightarrow> 'a tree \<Rightarrow> error + 'a tree" where
  "insertRecursively_at v Null = Inl TypeError"
| "insertRecursively_at v (Node l x r) =
     (if v < x then
        (if l = Null then Inr (Node (Node Null v Null) x r)
         else (case insertRecursively_at v l of Inl e \<Rightarrow> Inl e | Inr l' \<Rightarrow> Inr (Node l' x r)))
      else
        (if r = Null then Inr (Node l x (Node Null v Null))
         else (case insertRecursively_at v r of Inl e \<Rightarrow> Inl e | Inr r' \<Rightarrow> Inr (Node l x r'))))"

definition insertRecursively :: "'a::linorder \<Rightarrow> 'a tree \<Rightarrow> error + 'a tree" where
  "insertRecursively v root =
     (if root = Null then Inr (Node Null v Null) else insertRecursively_at v root)"

text \<open>Calling a method once per value of a list, starting from a given tree.\<close>

fun inserts :: "'a::linorder list \<Rightarrow> 'a tree \<Rightarrow> (error + 'a tree) option" where
  "inserts [] t = Some (Inr t)"
| "inserts (v # vs) t =
     (case insert v t of
        None \<Rightarrow> None
      | Some (Inl e) \<Rightarrow> Some (Inl e)
      | Some (Inr t') \<Rightarrow> inserts vs t')"

fun insertsRecursively :: "'a::linorder list \<Rightarrow> 'a tree \<Rightarrow> error + 'a tree" where
  "insertsRecursively [] t = Inr t"
| "insertsRecursively (v # vs) t =
     (case insertRecursively v t of Inl e \<Rightarrow> Inl e | Inr t' \<Rightarrow> insertsRecursively vs t')"

section \<open>find and findRecursively\<close>

text \<open>The result \<open>None\<close> is the JavaScript \<open>undefined\<close>; a found node is returned as it is.\<close>

fun find_loop :: "'a::linorder \<Rightarrow> 'a tree \<Rightarrow> 'a tree option" where
  "find_loop v Null = None"
| "find_loop v (Node l x r) =
     (if v < x then find_loop v l
      else if v > x then find_loop v r
      else Some (Node l x r))"

definition find :: "'a::linorder \<Rightarrow> 'a tree \<Rightarrow> 'a tree option" where
  "find v root =
     (case root of
        Null \<Rightarrow> find_loop v root
      | Node l x r \<Rightarrow> if v = x then Some root else find_loop v root)"

fun findRecursively_at :: "'a::linorder \<Rightarrow> 'a tree \<Rightarrow> error + 'a tree option" where
  "findRecursively_at v Null = Inl TypeError"
| "findRecursively_at v (Node l x r) =
     (if v < x then (if l = Null then Inr None else findRecursively_at v l)
      else if v > x then (if r = Null then Inr None else findRecursively_at v r)
      else Inr (Some (Node l x r)))"

definition findRecursively :: "'a::linorder \<Rightarrow> 'a tree \<Rightarrow> error + 'a tree option" where
  "findRecursively v root = (if root = Null then Inr None else findRecursively_at v root)"

section \<open>Depth-first and breadth-first traversals\<close>

text \<open>
  Each traversal fills the array \<open>data\<close> through the closure \<open>traverse\<close>; the array is
  passed through the calls.
\<close>

fun traverse_pre :: "'a tree \<Rightarrow> 'a list \<Rightarrow> 'a list" where
  "traverse_pre Null data = data"
| "traverse_pre (Node l x r) data = traverse_pre r (traverse_pre l (data @ [x]))"

definition dfsPreOrder :: "'a tree \<Rightarrow> 'a list" where
  "dfsPreOrder root = traverse_pre root []"

fun traverse_in :: "'a tree \<Rightarrow> 'a list \<Rightarrow> 'a list" where
  "traverse_in Null data = data"
| "traverse_in (Node l x r) data = traverse_in r (traverse_in l data @ [x])"

definition dfsInOrder :: "'a tree \<Rightarrow> 'a list" where
  "dfsInOrder root = traverse_in root []"

fun traverse_post :: "'a tree \<Rightarrow> 'a list \<Rightarrow> 'a list" where
  "traverse_post Null data = data"
| "traverse_post (Node l x r) data = traverse_post r (traverse_post l data) @ [x]"

definition dfsPostOrder :: "'a tree \<Rightarrow> 'a list" where
  "dfsPostOrder root = traverse_post root []"

text \<open>
  \<open>bfs\<close>: the queue starts as \<open>[this.root]\<close>, also when the root is \<open>null\<close>; the loop body
  reads \<open>node.val\<close> of the dequeued element without a check. Children are enqueued only
  when they are not \<open>null\<close>.
\<close>

function bfs_loop :: "'a tree list \<Rightarrow> 'a list \<Rightarrow> error + 'a list" where
  "bfs_loop [] data = Inr data"
| "bfs_loop (Null # queue) data = Inl TypeError"
| "bfs_loop (Node l x r # queue) data =
     bfs_loop (queue @ (if l \<noteq> Null then [l] else []) @ (if r \<noteq> Null then [r] else []))
       (data @ [x])"
  by pat_completeness auto
termination
  by (relation "measure (\<lambda>(queue, data). sum_list (map size queue))") auto

definition bfs :: "'a tree \<Rightarrow> error + 'a list" where
  "bfs root = bfs_loop [root] []"

text \<open>
  \<open>dfsInOrderIterative\<close>: the inner loop pushes \<open>cur\<close> and its chain of left children;
  \<open>stack.pop()\<close> on an empty array gives \<open>undefined\<close>, which the test \<open>if (cur)\<close> treats
  like \<open>null\<close>. The head of the list is the top of the stack.
\<close>

fun push_left :: "'a tree \<Rightarrow> 'a tree list \<Rightarrow> 'a tree list" where
  "push_left Null stack = stack"
| "push_left (Node l x r) stack = push_left l (Node l x r # stack)"

fun pending :: "'a tree \<Rightarrow> nat" where
  "pending Null = 1"
| "pending (Node l x r) = Suc (size r)"

lemma pending_pos: "pending t \<noteq> 0"
  by (cases t) simp_all

lemma pending_push_left:
  "sum_list (map pending (push_left cur stack)) = size cur + sum_list (map pending stack)"
  by (induction cur arbitrary: stack) auto

function iter_loop :: "'a tree list \<Rightarrow> 'a tree \<Rightarrow> 'a list \<Rightarrow> 'a list" where
  "iter_loop stack cur dfs =
     (if stack \<noteq> [] \<or> cur \<noteq> Null then
        (case push_left cur stack of
           [] \<Rightarrow> iter_loop [] Null dfs
         | Null # stack' \<Rightarrow> iter_loop stack' Null dfs
         | Node l x r # stack' \<Rightarrow> iter_loop stack' r (dfs @ [x]))
      else dfs)"
  by pat_completeness auto
termination
proof (relation "measure (\<lambda>(stack, cur, dfs). size cur + sum_list (map pending stack))")
  show "wf (measure (\<lambda>(stack, cur, dfs). size cur + sum_list (map pending stack)))"
    by simp
next
  fix stack :: "'a tree list" and cur :: "'a tree" and dfs :: "'a list"
  assume busy: "stack \<noteq> [] \<or> cur \<noteq> Null" and e: "push_left cur stack = []"
  from pending_push_left[of cur stack] e
  have z: "size cur = 0" "sum_list (map pending stack) = 0"
    by simp_all
  from z(1) have "cur = Null" by (cases cur) simp_all
  moreover from z(2) have "stack = []" by (cases stack) (simp_all add: pending_pos)
  ultimately have False using busy by simp
  then show "(([], Null, dfs), stack, cur, dfs)
      \<in> measure (\<lambda>(stack, cur, dfs). size cur + sum_list (map pending stack))" ..
next
  fix stack :: "'a tree list" and cur :: "'a tree" and dfs :: "'a list" and top stack'
  assume "stack \<noteq> [] \<or> cur \<noteq> Null" and "push_left cur stack = top # stack'"
    and "top = Null"
  with pending_push_left[of cur stack]
  show "((stack', Null, dfs), stack, cur, dfs)
      \<in> measure (\<lambda>(stack, cur, dfs). size cur + sum_list (map pending stack))"
    by simp
next
  fix stack :: "'a tree list" and cur :: "'a tree" and dfs :: "'a list" and top stack' l x r
  assume "stack \<noteq> [] \<or> cur \<noteq> Null" and "push_left cur stack = top # stack'"
    and "top = Node l x r"
  with pending_push_left[of cur stack]
  show "((stack', r, dfs @ [x]), stack, cur, dfs)
      \<in> measure (\<lambda>(stack, cur, dfs). size cur + sum_list (map pending stack))"
    by simp
qed

definition dfsInOrderIterative :: "'a tree \<Rightarrow> 'a list" where
  "dfsInOrderIterative root = iter_loop [] root []"

section \<open>remove\<close>

text \<open>
  The two-children branch whose right child has a left child: the loop walks from \<open>right\<close>
  down the chain of left children to the leftmost node, whose value is copied into
  \<open>nodeToRemove\<close>, and \<open>rightParent.left\<close> receives \<open>right.right\<close>. The function
  takes the fields of the node the walk stands on and gives the value of the leftmost node
  below it together with that node's subtree after the assignment to \<open>rightParent.left\<close>.
\<close>

fun unlink_leftmost :: "'a tree \<Rightarrow> 'a \<Rightarrow> 'a tree \<Rightarrow> 'a \<times> 'a tree" where
  "unlink_leftmost Null x r = (x, r)"
| "unlink_leftmost (Node ll lx lr) x r =
     (case unlink_leftmost ll lx lr of (s, l') \<Rightarrow> (s, Node l' x r))"

text \<open>
  The three branches on the children of \<open>nodeToRemove\<close>, given its fields. The result
  is the pair of the object \<open>nodeToRemove\<close> as it stands when \<open>remove\<close> returns it and
  the new content of the slot of \<open>parent\<close> that pointed to it. In the first two-children
  branch \<open>right.left\<close> is set to \<open>nodeToRemove.left\<close> while \<open>nodeToRemove.right\<close>
  still points to \<open>right\<close>; in the second one \<open>nodeToRemove\<close> stays in its slot and only
  its \<open>val\<close> is overwritten.
\<close>

definition unlink :: "'a tree \<Rightarrow> 'a \<Rightarrow> 'a tree \<Rightarrow> 'a tree \<times> 'a tree" where
  "unlink l x r =
     (if l = Null \<and> r = Null then (Node l x r, Null)
      else if l \<noteq> Null \<and> r \<noteq> Null then
        (case r of
           Null \<Rightarrow> (Node l x r, Null)
         | Node rl rx rr \<Rightarrow>
             if rl = Null then (Node l x (Node l rx rr), Node l rx rr)
             else (case unlink_leftmost rl rx rr of (s, r') \<Rightarrow> (Node l s r', Node l s r')))
      else (Node l x r, if l \<noteq> Null then l else r))"

text \<open>
  The search loop \<open>while (nodeToRemove?.val !== val)\<close>: for \<open>nodeToRemove = null\<close> the
  test compares \<open>undefined\<close> with \<open>val\<close>, the body is entered and reads
  \<open>nodeToRemove.val\<close>. The synthetic parent \<open>tempRoot\<close> makes the root a left child, and
  \<open>this.root\<close> receives \<open>parent.left\<close> at the end, so the tree after the call is the new
  content of the slot in both cases. The result is the returned node and the tree after
  the call.
\<close>

fun remove_loop :: "'a::linorder \<Rightarrow> 'a tree \<Rightarrow> error + ('a tree \<times> 'a tree)" where
  "remove_loop v Null = Inl TypeError"
| "remove_loop v (Node l x r) =
     (if x = v then Inr (unlink l x r)
      else if v < x then
        (case remove_loop v l of Inl e \<Rightarrow> Inl e | Inr (n, l') \<Rightarrow> Inr (n, Node l' x r))
      else
        (case remove_loop v r of Inl e \<Rightarrow> Inl e | Inr (n, r') \<Rightarrow> Inr (n, Node l x r')))"

definition remove :: "'a::linorder \<Rightarrow> 'a tree \<Rightarrow> error + ('a tree \<times> 'a tree)" where
  "remove v root = remove_loop v root"

section \<open>isBalanced and findSecondHighest\<close>

fun minDepth :: "'a tree \<Rightarrow> int" where
  "minDepth Null = 0"
| "minDepth (Node l x r) = 1 + min (minDepth l) (minDepth r)"

fun maxDepth :: "'a tree \<Rightarrow> int" where
  "maxDepth Null = 0"
| "maxDepth (Node l x r) = 1 + max (maxDepth l) (maxDepth r)"

definition isBalanced :: "'a tree \<Rightarrow> bool" where
  "isBalanced current = (if current = Null then True else maxDepth current - minDepth current \<le> 1)"

text \<open>
  \<open>findSecondHighest(current)\<close> for a tree with root \<open>root\<close>: the test on \<open>this.root\<close>
  is repeated by every recursive call; the loop moves \<open>current\<close> to the right. Falling out
  of the loop returns \<open>undefined\<close>.
\<close>

fun findSecondHighest_at :: "'a tree \<Rightarrow> 'a tree \<Rightarrow> 'a option"
  and findSecondHighest_loop :: "'a tree \<Rightarrow> 'a tree \<Rightarrow> 'a option" where
  "findSecondHighest_at root current =
     (case root of
        Null \<Rightarrow> None
      | Node rootl rootx rootr \<Rightarrow>
          if rootl = Null \<and> rootr = Null then None else findSecondHighest_loop root current)"
| "findSecondHighest_loop root Null = None"
| "findSecondHighest_loop root (Node l x r) =
     (if l \<noteq> Null \<and> r = Null then findSecondHighest_at root l
      else if (case r of Null \<Rightarrow> False | Node rl rx rr \<Rightarrow> rl = Null \<and> rr = Null) then Some x
      else findSecondHighest_loop root r)"

definition findSecondHighest :: "'a tree \<Rightarrow> 'a option" where
  "findSecondHighest root = findSecondHighest_at root root"

section \<open>The ordering invariant\<close>

fun tree_vals :: "'a tree \<Rightarrow> 'a set" where
  "tree_vals Null = {}"
| "tree_vals (Node l x r) = tree_vals l \<union> {x} \<union> tree_vals r"

text \<open>The strict ordering of the specification, at every node.\<close>

fun bst :: "'a::linorder tree \<Rightarrow> bool" where
  "bst Null = True"
| "bst (Node l x r) =
     ((\<forall>y \<in> tree_vals l. y < x) \<and> (\<forall>y \<in> tree_vals r. x < y) \<and> bst l \<and> bst r)"

text \<open>The ordering with equal values allowed in the right subtree.\<close>

fun bst_dup :: "'a::linorder tree \<Rightarrow> bool" where
  "bst_dup Null = True"
| "bst_dup (Node l x r) =
     ((\<forall>y \<in> tree_vals l. y < x) \<and> (\<forall>y \<in> tree_vals r. x \<le> y) \<and> bst_dup l \<and> bst_dup r)"

text \<open>
  Trees obtained from the empty tree by calls of \<open>insert\<close>, \<open>insertRecursively\<close> and
  \<open>remove\<close> that return.
\<close>

inductive reachable :: "'a::linorder tree \<Rightarrow> bool" where
  empty: "reachable Null"
| by_insert: "reachable t \<Longrightarrow> insert v t = Some (Inr t') \<Longrightarrow> reachable t'"
| by_insertRecursively: "reachable t \<Longrightarrow> insertRecursively v t = Inr t' \<Longrightarrow> reachable t'"
| by_remove: "reachable t \<Longrightarrow> remove v t = Inr (n, t') \<Longrightarrow> reachable t'"

text \<open>
  The same, where no call of \<open>insertRecursively\<close> is given a value that the tree
  already holds.
\<close>

inductive reachable_distinct :: "'a::linorder tree \<Rightarrow> bool" where
  empty: "reachable_distinct Null"
| by_insert: "reachable_distinct t \<Longrightarrow> insert v t = Some (Inr t') \<Longrightarrow> reachable_distinct t'"
| by_insertRecursively:
    "reachable_distinct t \<Longrightarrow> v \<notin> tree_vals t \<Longrightarrow> insertRecursively v t = Inr t'
      \<Longrightarrow> reachable_distinct t'"
| by_remove: "reachable_distinct t \<Longrightarrow> remove v t = Inr (n, t') \<Longrightarrow> reachable_distinct t'"

section \<open>The object graph with node identities\<close>

text \<open>
  Which object a method returns, and what a method leaves untouched, depends on the
  identity of the nodes. Here a reference is an address, every address denotes
  a \<open>Node\<close> object with its three fields, and the state of a \<open>BinarySearchTree\<close> is the
  field \<open>root\<close> together with the objects. A \<open>null\<close> link is \<open>None\<close>. An object graph
  may contain a cycle, on which the loops of the source do not end: the loops take a bound
  on the number of iterations, and the result \<open>None\<close> says that the bound was reached.
\<close>

type_synonym ref = nat

record 'a node =
  val :: 'a
  left :: "ref option"
  right :: "ref option"

record 'a BinarySearchTree =
  heap :: "ref \<Rightarrow> 'a node"
  root :: "ref option"

text \<open>The object graph below a reference represents a tree of the first model.\<close>

fun tree_rep :: "(ref \<Rightarrow> 'a node) \<Rightarrow> ref option \<Rightarrow> 'a tree \<Rightarrow> bool" where
  "tree_rep h p Null = (p = None)"
| "tree_rep h p (Node l x r) =
     (case p of
        None \<Rightarrow> False
      | Some a \<Rightarrow> val (h a) = x \<and> tree_rep h (left (h a)) l \<and> tree_rep h (right (h a)) r)"

subsection \<open>insert and insertRecursively on the object graph\<close>

text \<open>
  \<open>new Node(val)\<close> creates an object at an address \<open>new\<close>, which the caller of the model
  supplies; it is an address that no object of the tree has. The result of \<open>insert\<close> is
  the state after the call (\<open>return this\<close>), or \<open>None\<close> when the bound on the iterations
  is reached; with a value equal to \<open>current.val\<close> the loop reaches every bound.
\<close>

definition new_node :: "'a \<Rightarrow> 'a node" where
  "new_node v = \<lparr>val = v, left = None, right = None\<rparr>"

fun insert_loop_st :: "nat \<Rightarrow> ref \<Rightarrow> 'a::linorder \<Rightarrow> ref \<Rightarrow> 'a BinarySearchTree
    \<Rightarrow> 'a BinarySearchTree option" where
  "insert_loop_st 0 new v current s = None"
| "insert_loop_st (Suc k) new v current s =
     (if v < val (heap s current) then
        (case left (heap s current) of
           None \<Rightarrow>
             Some (s\<lparr>heap := ((heap s)(new := new_node v))
                       (current := (heap s current)\<lparr>left := Some new\<rparr>)\<rparr>)
         | Some l \<Rightarrow> insert_loop_st k new v l s)
      else if v > val (heap s current) then
        (case right (heap s current) of
           None \<Rightarrow>
             Some (s\<lparr>heap := ((heap s)(new := new_node v))
                       (current := (heap s current)\<lparr>right := Some new\<rparr>)\<rparr>)
         | Some r \<Rightarrow> insert_loop_st k new v r s)
      else insert_loop_st k new v current s)"

definition insert_st :: "nat \<Rightarrow> ref \<Rightarrow> 'a::linorder \<Rightarrow> 'a BinarySearchTree
    \<Rightarrow> 'a BinarySearchTree option" where
  "insert_st k new v s =
     (case root s of
        None \<Rightarrow> Some (s\<lparr>heap := (heap s)(new := new_node v), root := Some new\<rparr>)
      | Some c \<Rightarrow> insert_loop_st k new v c s)"

fun insertRecursively_st :: "nat \<Rightarrow> ref \<Rightarrow> 'a::linorder \<Rightarrow> ref option \<Rightarrow> 'a BinarySearchTree
    \<Rightarrow> (error + 'a BinarySearchTree) option" where
  "insertRecursively_st 0 new v current s = None"
| "insertRecursively_st (Suc k) new v current s =
     (if root s = None then
        Some (Inr (s\<lparr>heap := (heap s)(new := new_node v), root := Some new\<rparr>))
      else
        (case current of
           None \<Rightarrow> Some (Inl TypeError)
         | Some c \<Rightarrow>
             if v < val (heap s c) then
               (case left (heap s c) of
                  None \<Rightarrow>
                    Some (Inr (s\<lparr>heap := ((heap s)(new := new_node v))
                                   (c := (heap s c)\<lparr>left := Some new\<rparr>)\<rparr>))
                | Some l \<Rightarrow> insertRecursively_st k new v (Some l) s)
             else
               (case right (heap s c) of
                  None \<Rightarrow>
                    Some (Inr (s\<lparr>heap := ((heap s)(new := new_node v))
                                   (c := (heap s c)\<lparr>right := Some new\<rparr>)\<rparr>))
                | Some r \<Rightarrow> insertRecursively_st k new v (Some r) s)))"

subsection \<open>remove on the object graph\<close>

text \<open>The search loop of \<open>remove\<close>, with \<open>parent\<close> (\<open>None\<close> while it is undefined).\<close>

fun search_st :: "nat \<Rightarrow> 'a::linorder \<Rightarrow> (ref \<Rightarrow> 'a node) \<Rightarrow> ref option \<Rightarrow> ref option
    \<Rightarrow> (error + ref option \<times> ref) option" where
  "search_st 0 v h parent nodeToRemove = None"
| "search_st (Suc k) v h parent None = Some (Inl TypeError)"
| "search_st (Suc k) v h parent (Some a) =
     (if val (h a) = v then Some (Inr (parent, a))
      else search_st k v h (Some a) (if v < val (h a) then left (h a) else right (h a)))"

text \<open>
  \<open>parent\<close> is a node of the graph or the object \<open>tempRoot\<close>, which is created by the
  call and is reachable from nowhere else; the fields \<open>left\<close> and \<open>right\<close> of
  \<open>tempRoot\<close> are kept as a pair beside the objects of the graph.
\<close>

datatype parent = TempRoot | Parent ref

definition parent_left :: "(ref \<Rightarrow> 'a node) \<Rightarrow> ref option \<times> ref option \<Rightarrow> parent \<Rightarrow> ref option" where
  "parent_left h tmp p = (case p of TempRoot \<Rightarrow> fst tmp | Parent a \<Rightarrow> left (h a))"

definition parent_right :: "(ref \<Rightarrow> 'a node) \<Rightarrow> ref option \<times> ref option \<Rightarrow> parent \<Rightarrow> ref option" where
  "parent_right h tmp p = (case p of TempRoot \<Rightarrow> snd tmp | Parent a \<Rightarrow> right (h a))"

text \<open>\<open>if (parent.left === nodeToRemove) parent.left = x; else parent.right = x;\<close>\<close>

definition set_slot :: "parent \<Rightarrow> ref \<Rightarrow> ref option
    \<Rightarrow> (ref \<Rightarrow> 'a node) \<times> (ref option \<times> ref option)
    \<Rightarrow> (ref \<Rightarrow> 'a node) \<times> (ref option \<times> ref option)" where
  "set_slot p n x st =
     (case st of (h, tmp) \<Rightarrow>
        if parent_left h tmp p = Some n then
          (case p of
             TempRoot \<Rightarrow> (h, (x, snd tmp))
           | Parent a \<Rightarrow> (h(a := (h a)\<lparr>left := x\<rparr>), tmp))
        else
          (case p of
             TempRoot \<Rightarrow> (h, (fst tmp, x))
           | Parent a \<Rightarrow> (h(a := (h a)\<lparr>right := x\<rparr>), tmp)))"

text \<open>\<open>while (right.left !== null) { rightParent = right; right = right.left; }\<close>\<close>

fun walk_left :: "nat \<Rightarrow> (ref \<Rightarrow> 'a node) \<Rightarrow> ref \<Rightarrow> ref \<Rightarrow> (ref \<times> ref) option" where
  "walk_left 0 h rightParent right' = None"
| "walk_left (Suc k) h rightParent right' =
     (case left (h right') of
        None \<Rightarrow> Some (rightParent, right')
      | Some l \<Rightarrow> walk_left k h right' l)"

text \<open>The branches on the children of \<open>nodeToRemove\<close> (lines 234 to 275).\<close>

definition relink :: "nat \<Rightarrow> (ref \<Rightarrow> 'a node) \<Rightarrow> ref option \<times> ref option \<Rightarrow> parent \<Rightarrow> ref
    \<Rightarrow> (error + (ref \<Rightarrow> 'a node) \<times> (ref option \<times> ref option)) option" where
  "relink k h tmp p n =
     (if left (h n) = None \<and> right (h n) = None then
        Some (Inr (set_slot p n None (h, tmp)))
      else if left (h n) \<noteq> None \<and> right (h n) \<noteq> None then
        (case right (h n) of
           None \<Rightarrow> Some (Inl TypeError)
         | Some r \<Rightarrow>
             if left (h r) = None then
               Some (Inr (set_slot p n (Some r) (h(r := (h r)\<lparr>left := left (h n)\<rparr>), tmp)))
             else
               (case walk_left k h n r of
                  None \<Rightarrow> None
                | Some (rightParent, rt) \<Rightarrow>
                    (case (if parent_left h tmp p = Some n then parent_left h tmp p
                           else parent_right h tmp p) of
                       None \<Rightarrow> Some (Inl TypeError)
                     | Some target \<Rightarrow>
                         let h1 = h(target := (h target)\<lparr>val := val (h rt)\<rparr>);
                             h2 = h1(rightParent := (h1 rightParent)\<lparr>left := right (h1 rt)\<rparr>)
                         in Some (Inr (h2, tmp)))))
      else
        Some (Inr (set_slot p n
                (if left (h n) \<noteq> None then left (h n) else right (h n)) (h, tmp))))"

text \<open>
  \<open>remove(val)\<close>: the result is the returned reference (\<open>None\<close> for \<open>null\<close>) and the
  state after the call. After the search loop \<open>nodeToRemove\<close> is an object, so the
  test of line 224 is false.
\<close>

definition remove_st :: "nat \<Rightarrow> 'a::linorder \<Rightarrow> 'a BinarySearchTree
    \<Rightarrow> (error + ref option \<times> 'a BinarySearchTree) option" where
  "remove_st k v s =
     (case search_st k v (heap s) None (root s) of
        None \<Rightarrow> None
      | Some (Inl e) \<Rightarrow> Some (Inl e)
      | Some (Inr (parent0, n)) \<Rightarrow>
          (case (if root s = Some n then Some TempRoot else map_option Parent parent0) of
             None \<Rightarrow> Some (Inl TypeError)
           | Some p \<Rightarrow>
               (case relink k (heap s) (root s, None) p n of
                  None \<Rightarrow> None
                | Some (Inl e) \<Rightarrow> Some (Inl e)
                | Some (Inr (h', tmp')) \<Rightarrow>
                    Some (Inr (Some n,
                      \<lparr>heap = h',
                       root = (if root s = Some n then parent_left h' tmp' p else root s)\<rparr>)))))"

subsection \<open>Tree-shaped object graphs\<close>

text \<open>
  The addresses of the objects that represent a tree below a reference, and the graphs
  in which these objects are pairwise different: every node is owned by one link.
\<close>

fun refs :: "(ref \<Rightarrow> 'a node) \<Rightarrow> ref option \<Rightarrow> 'a tree \<Rightarrow> ref set" where
  "refs h p Null = {}"
| "refs h p (Node l x r) =
     (case p of
        None \<Rightarrow> {}
      | Some a \<Rightarrow> {a} \<union> refs h (left (h a)) l \<union> refs h (right (h a)) r)"

fun owns :: "(ref \<Rightarrow> 'a node) \<Rightarrow> ref option \<Rightarrow> 'a tree \<Rightarrow> bool" where
  "owns h p Null = (p = None)"
| "owns h p (Node l x r) =
     (case p of
        None \<Rightarrow> False
      | Some a \<Rightarrow>
          val (h a) = x \<and> owns h (left (h a)) l \<and> owns h (right (h a)) r
          \<and> a \<notin> refs h (left (h a)) l \<and> a \<notin> refs h (right (h a)) r
          \<and> refs h (left (h a)) l \<inter> refs h (right (h a)) r = {})"

text \<open>
  What one call of the branches of \<open>remove\<close> may change: the slot of the parent that
  held \<open>n\<close> now holds \<open>q\<close>, and objects outside the set \<open>A\<close> other than the parent
  are as before.
\<close>

definition relinked :: "(ref \<Rightarrow> 'a node) \<Rightarrow> ref option \<times> ref option
    \<Rightarrow> (ref \<Rightarrow> 'a node) \<Rightarrow> ref option \<times> ref option \<Rightarrow> parent \<Rightarrow> ref \<Rightarrow> ref option \<Rightarrow> ref set \<Rightarrow> bool" where
  "relinked h tmp h' tmp' P n q A =
     ((if parent_left h tmp P = Some n
       then parent_left h' tmp' P = q \<and> parent_right h' tmp' P = parent_right h tmp P
       else parent_right h' tmp' P = q \<and> parent_left h' tmp' P = parent_left h tmp P)
      \<and> (\<forall>p. P = Parent p \<longrightarrow> val (h' p) = val (h p))
      \<and> (\<forall>a. a \<notin> A \<longrightarrow> P \<noteq> Parent a \<longrightarrow> h' a = h a))"

subsection \<open>The read-only methods on the object graph\<close>

text \<open>
  Every method takes the state and gives its result with the state after the call; the
  arrays \<open>data\<close>, \<open>queue\<close>, \<open>stack\<close> and \<open>dfs\<close> are local to a call. A result \<open>None\<close>
  says that the bound on the iterations was reached.
\<close>

fun find_loop_st :: "nat \<Rightarrow> 'a::linorder \<Rightarrow> ref option \<Rightarrow> 'a BinarySearchTree
    \<Rightarrow> (error + ref option) option \<times> 'a BinarySearchTree" where
  "find_loop_st 0 v currentNode s = (None, s)"
| "find_loop_st (Suc k) v None s = (Some (Inr None), s)"
| "find_loop_st (Suc k) v (Some a) s =
     (if v < val (heap s a) then find_loop_st k v (left (heap s a)) s
      else if v > val (heap s a) then find_loop_st k v (right (heap s a)) s
      else (Some (Inr (Some a)), s))"

definition find_st :: "nat \<Rightarrow> 'a::linorder \<Rightarrow> 'a BinarySearchTree
    \<Rightarrow> (error + ref option) option \<times> 'a BinarySearchTree" where
  "find_st k v s =
     (case root s of
        None \<Rightarrow> find_loop_st k v None s
      | Some a \<Rightarrow>
          if v = val (heap s a) then (Some (Inr (Some a)), s) else find_loop_st k v (Some a) s)"

fun findRecursively_st :: "nat \<Rightarrow> 'a::linorder \<Rightarrow> ref option \<Rightarrow> 'a BinarySearchTree
    \<Rightarrow> (error + ref option) option \<times> 'a BinarySearchTree" where
  "findRecursively_st 0 v current s = (None, s)"
| "findRecursively_st (Suc k) v current s =
     (if root s = None then (Some (Inr None), s)
      else
        (case current of
           None \<Rightarrow> (Some (Inl TypeError), s)
         | Some a \<Rightarrow>
             if v < val (heap s a) then
               (if left (heap s a) = None then (Some (Inr None), s)
                else findRecursively_st k v (left (heap s a)) s)
             else if v > val (heap s a) then
               (if right (heap s a) = None then (Some (Inr None), s)
                else findRecursively_st k v (right (heap s a)) s)
             else (Some (Inr (Some a)), s)))"

fun traverse_pre_st :: "nat \<Rightarrow> ref option \<Rightarrow> 'a list \<Rightarrow> 'a BinarySearchTree
    \<Rightarrow> 'a list option \<times> 'a BinarySearchTree" where
  "traverse_pre_st 0 node data s = (None, s)"
| "traverse_pre_st (Suc k) None data s = (Some data, s)"
| "traverse_pre_st (Suc k) (Some a) data s =
     (case traverse_pre_st k (left (heap s a)) (data @ [val (heap s a)]) s of
        (None, s1) \<Rightarrow> (None, s1)
      | (Some data1, s1) \<Rightarrow> traverse_pre_st k (right (heap s1 a)) data1 s1)"

definition dfsPreOrder_st :: "nat \<Rightarrow> 'a BinarySearchTree \<Rightarrow> 'a list option \<times> 'a BinarySearchTree" where
  "dfsPreOrder_st k s = traverse_pre_st k (root s) [] s"

fun traverse_in_st :: "nat \<Rightarrow> ref option \<Rightarrow> 'a list \<Rightarrow> 'a BinarySearchTree
    \<Rightarrow> 'a list option \<times> 'a BinarySearchTree" where
  "traverse_in_st 0 node data s = (None, s)"
| "traverse_in_st (Suc k) None data s = (Some data, s)"
| "traverse_in_st (Suc k) (Some a) data s =
     (case traverse_in_st k (left (heap s a)) data s of
        (None, s1) \<Rightarrow> (None, s1)
      | (Some data1, s1) \<Rightarrow>
          traverse_in_st k (right (heap s1 a)) (data1 @ [val (heap s1 a)]) s1)"

definition dfsInOrder_st :: "nat \<Rightarrow> 'a BinarySearchTree \<Rightarrow> 'a list option \<times> 'a BinarySearchTree" where
  "dfsInOrder_st k s = traverse_in_st k (root s) [] s"

fun traverse_post_st :: "nat \<Rightarrow> ref option \<Rightarrow> 'a list \<Rightarrow> 'a BinarySearchTree
    \<Rightarrow> 'a list option \<times> 'a BinarySearchTree" where
  "traverse_post_st 0 node data s = (None, s)"
| "traverse_post_st (Suc k) None data s = (Some data, s)"
| "traverse_post_st (Suc k) (Some a) data s =
     (case traverse_post_st k (left (heap s a)) data s of
        (None, s1) \<Rightarrow> (None, s1)
      | (Some data1, s1) \<Rightarrow>
          (case traverse_post_st k (right (heap s1 a)) data1 s1 of
             (None, s2) \<Rightarrow> (None, s2)
           | (Some data2, s2) \<Rightarrow> (Some (data2 @ [val (heap s2 a)]), s2)))"

definition dfsPostOrder_st :: "nat \<Rightarrow> 'a BinarySearchTree \<Rightarrow> 'a list option \<times> 'a BinarySearchTree" where
  "dfsPostOrder_st k s = traverse_post_st k (root s) [] s"

fun bfs_loop_st :: "nat \<Rightarrow> ref option list \<Rightarrow> 'a list \<Rightarrow> 'a BinarySearchTree
    \<Rightarrow> (error + 'a list) option \<times> 'a BinarySearchTree" where
  "bfs_loop_st 0 queue data s = (None, s)"
| "bfs_loop_st (Suc k) [] data s = (Some (Inr data), s)"
| "bfs_loop_st (Suc k) (None # queue) data s = (Some (Inl TypeError), s)"
| "bfs_loop_st (Suc k) (Some a # queue) data s =
     bfs_loop_st k
       (queue @ (if left (heap s a) \<noteq> None then [left (heap s a)] else [])
              @ (if right (heap s a) \<noteq> None then [right (heap s a)] else []))
       (data @ [val (heap s a)]) s"

definition bfs_st :: "nat \<Rightarrow> 'a BinarySearchTree
    \<Rightarrow> (error + 'a list) option \<times> 'a BinarySearchTree" where
  "bfs_st k s = bfs_loop_st k [root s] [] s"

fun push_left_st :: "nat \<Rightarrow> ref option \<Rightarrow> ref list \<Rightarrow> 'a BinarySearchTree
    \<Rightarrow> ref list option \<times> 'a BinarySearchTree" where
  "push_left_st 0 cur stack s = (None, s)"
| "push_left_st (Suc k) None stack s = (Some stack, s)"
| "push_left_st (Suc k) (Some a) stack s = push_left_st k (left (heap s a)) (a # stack) s"

fun iter_loop_st :: "nat \<Rightarrow> ref list \<Rightarrow> ref option \<Rightarrow> 'a list \<Rightarrow> 'a BinarySearchTree
    \<Rightarrow> 'a list option \<times> 'a BinarySearchTree" where
  "iter_loop_st 0 stack cur dfs s = (None, s)"
| "iter_loop_st (Suc k) stack cur dfs s =
     (if stack \<noteq> [] \<or> cur \<noteq> None then
        (case push_left_st k cur stack s of
           (None, s1) \<Rightarrow> (None, s1)
         | (Some [], s1) \<Rightarrow> iter_loop_st k [] None dfs s1
         | (Some (a # stack'), s1) \<Rightarrow>
             iter_loop_st k stack' (right (heap s1 a)) (dfs @ [val (heap s1 a)]) s1)
      else (Some dfs, s))"

definition dfsInOrderIterative_st :: "nat \<Rightarrow> 'a BinarySearchTree
    \<Rightarrow> 'a list option \<times> 'a BinarySearchTree" where
  "dfsInOrderIterative_st k s = iter_loop_st k [] (root s) [] s"

fun minDepth_st :: "nat \<Rightarrow> ref option \<Rightarrow> 'a BinarySearchTree \<Rightarrow> int option \<times> 'a BinarySearchTree" where
  "minDepth_st 0 node s = (None, s)"
| "minDepth_st (Suc k) None s = (Some 0, s)"
| "minDepth_st (Suc k) (Some a) s =
     (case minDepth_st k (left (heap s a)) s of
        (None, s1) \<Rightarrow> (None, s1)
      | (Some dl, s1) \<Rightarrow>
          (case minDepth_st k (right (heap s1 a)) s1 of
             (None, s2) \<Rightarrow> (None, s2)
           | (Some dr, s2) \<Rightarrow> (Some (1 + min dl dr), s2)))"

fun maxDepth_st :: "nat \<Rightarrow> ref option \<Rightarrow> 'a BinarySearchTree \<Rightarrow> int option \<times> 'a BinarySearchTree" where
  "maxDepth_st 0 node s = (None, s)"
| "maxDepth_st (Suc k) None s = (Some 0, s)"
| "maxDepth_st (Suc k) (Some a) s =
     (case maxDepth_st k (left (heap s a)) s of
        (None, s1) \<Rightarrow> (None, s1)
      | (Some dl, s1) \<Rightarrow>
          (case maxDepth_st k (right (heap s1 a)) s1 of
             (None, s2) \<Rightarrow> (None, s2)
           | (Some dr, s2) \<Rightarrow> (Some (1 + max dl dr), s2)))"

definition isBalanced_st :: "nat \<Rightarrow> ref option \<Rightarrow> 'a BinarySearchTree
    \<Rightarrow> bool option \<times> 'a BinarySearchTree" where
  "isBalanced_st k current s =
     (if current = None then (Some True, s)
      else
        (case maxDepth_st k current s of
           (None, s1) \<Rightarrow> (None, s1)
         | (Some dmax, s1) \<Rightarrow>
             (case minDepth_st k current s1 of
                (None, s2) \<Rightarrow> (None, s2)
              | (Some dmin, s2) \<Rightarrow> (Some (dmax - dmin \<le> 1), s2))))"

fun findSecondHighest_st :: "nat \<Rightarrow> ref option \<Rightarrow> 'a BinarySearchTree
    \<Rightarrow> 'a option option \<times> 'a BinarySearchTree"
  and findSecondHighest_loop_st :: "nat \<Rightarrow> ref option \<Rightarrow> 'a BinarySearchTree
    \<Rightarrow> 'a option option \<times> 'a BinarySearchTree" where
  "findSecondHighest_st 0 current s = (None, s)"
| "findSecondHighest_st (Suc k) current s =
     (case root s of
        None \<Rightarrow> (Some None, s)
      | Some a \<Rightarrow>
          if left (heap s a) = None \<and> right (heap s a) = None then (Some None, s)
          else findSecondHighest_loop_st k current s)"
| "findSecondHighest_loop_st 0 current s = (None, s)"
| "findSecondHighest_loop_st (Suc k) None s = (Some None, s)"
| "findSecondHighest_loop_st (Suc k) (Some a) s =
     (if left (heap s a) \<noteq> None \<and> right (heap s a) = None then
        findSecondHighest_st k (left (heap s a)) s
      else if (case right (heap s a) of
                 None \<Rightarrow> False
               | Some r \<Rightarrow> left (heap s r) = None \<and> right (heap s r) = None) then
        (Some (Some (val (heap s a))), s)
      else findSecondHighest_loop_st k (right (heap s a)) s)"

text \<open>A reference returned by a lookup represents the node returned in the tree model.\<close>

definition node_rep :: "(ref \<Rightarrow> 'a node) \<Rightarrow> ref option \<Rightarrow> 'a tree option \<Rightarrow> bool" where
  "node_rep h r res =
     (case res of None \<Rightarrow> r = None | Some sub \<Rightarrow> r \<noteq> None \<and> tree_rep h r sub)"

subsection \<open>An example object graph\<close>

text \<open>
  The objects that \<open>insert(5)\<close>, \<open>insert(3)\<close>, \<open>insert(8)\<close>, \<open>insert(7)\<close> build on an
  empty tree, at the addresses 0, 1, 2, 3 in the order of their creation.
\<close>

definition graph_5_3_8_7 :: "int BinarySearchTree" where
  "graph_5_3_8_7 =
     \<lparr>heap = (\<lambda>_. \<lparr>val = 0, left = None, right = None\<rparr>)
        (0 := \<lparr>val = 5, left = Some 1, right = Some 2\<rparr>,
         1 := \<lparr>val = 3, left = None, right = None\<rparr>,
         2 := \<lparr>val = 8, left = Some 3, right = None\<rparr>,
         3 := \<lparr>val = 7, left = None, right = None\<rparr>),
      root = Some 0\<rparr>"

section \<open>Auxiliary notions for the proofs\<close>

text \<open>The sequence of values in left-node-right order, as a list.\<close>

fun inorder :: "'a tree \<Rightarrow> 'a list" where
  "inorder Null = []"
| "inorder (Node l x r) = inorder l @ x # inorder r"

text \<open>What a node waiting on the stack still contributes: its value, then its right subtree.\<close>

fun visit :: "'a tree \<Rightarrow> 'a list" where
  "visit Null = []"
| "visit (Node l x r) = x # inorder r"

text \<open>The search of \<open>insert\<close> for a value meets a node that holds it.\<close>

fun on_path :: "'a::linorder \<Rightarrow> 'a tree \<Rightarrow> bool" where
  "on_path v Null = False"
| "on_path v (Node l x r) =
     (if v < x then on_path v l else if v > x then on_path v r else True)"


section \<open>Traversal equivalence\<close>

declare iter_loop.simps [simp del]

lemma traverse_in_inorder: "traverse_in t data = data @ inorder t"
  by (induction t arbitrary: data) simp_all

lemma dfsInOrder_inorder: "dfsInOrder t = inorder t"
  by (simp add: dfsInOrder_def traverse_in_inorder)

lemma visit_push_left:
  "concat (map visit (push_left cur stack)) = inorder cur @ concat (map visit stack)"
  by (induction cur arbitrary: stack) simp_all

lemma iter_loop_inorder:
  "iter_loop stack cur dfs = dfs @ inorder cur @ concat (map visit stack)"
proof (induction stack cur dfs rule: iter_loop.induct)
  case (1 stack cur dfs)
  show ?case
  proof (cases "stack \<noteq> [] \<or> cur \<noteq> Null")
    case False
    then show ?thesis by (simp add: iter_loop.simps[of "[]" Null dfs])
  next
    case busy: True
    note vp = visit_push_left[of cur stack]
    show ?thesis
    proof (cases "push_left cur stack")
      case Nil
      with busy "1.IH"(1) vp show ?thesis
        by (simp add: iter_loop.simps[of stack cur dfs] iter_loop.simps[of "[]" Null dfs])
    next
      case (Cons top stack')
      show ?thesis
      proof (cases top)
        case Null
        with Cons busy "1.IH"(2) vp show ?thesis
          by (simp add: iter_loop.simps[of stack cur dfs])
      next
        case (Node l x r)
        with Cons busy "1.IH"(3) vp show ?thesis
          by (simp add: iter_loop.simps[of stack cur dfs])
      qed
    qed
  qed
qed

text \<open>
  Claim C2. For every tree, \<open>dfsInOrderIterative()\<close> returns the same sequence of values
  as \<open>dfsInOrder()\<close>.
\<close>

theorem dfsInOrderIterative_eq_dfsInOrder: "dfsInOrderIterative t = dfsInOrder t"
proof -
  have "iter_loop [] t [] = inorder t"
    by (simp add: iter_loop_inorder)
  then show ?thesis
    by (simp add: dfsInOrderIterative_def dfsInOrder_inorder)
qed

section \<open>Facts about the in-order sequence and the value set\<close>

lemma set_inorder: "set (inorder t) = tree_vals t"
  by (induction t) auto

lemma tree_vals_mset: "tree_vals t = set_mset (mset (inorder t))"
  by (simp add: set_inorder)

lemma bst_dup_sorted: "bst_dup t \<Longrightarrow> sorted (inorder t)"
proof (induction t)
  case Null
  then show ?case by simp
next
  case (Node l x r)
  have "a \<le> b" if "a \<in> tree_vals l" "b \<in> tree_vals r" for a b
  proof -
    from that Node.prems have "a < x" "x \<le> b" by simp_all
    then show ?thesis by simp
  qed
  with Node show ?case
    by (auto simp: sorted_append set_inorder intro: less_imp_le)
qed

lemma bst_imp_bst_dup: "bst t \<Longrightarrow> bst_dup t"
  by (induction t) (auto intro: less_imp_le)

lemma bst_iff: "bst t \<longleftrightarrow> bst_dup t \<and> distinct (inorder t)"
proof (induction t)
  case Null
  show ?case by simp
next
  case (Node l x r)
  show ?case
  proof
    assume b: "bst (Node l x r)"
    then have "a \<noteq> c" if "a \<in> tree_vals l" "c \<in> tree_vals r" for a c
      using that by fastforce
    then have "tree_vals l \<inter> tree_vals r = {}" by blast
    with b Node show "bst_dup (Node l x r) \<and> distinct (inorder (Node l x r))"
      by (auto simp: set_inorder intro: less_imp_le)
  next
    assume d: "bst_dup (Node l x r) \<and> distinct (inorder (Node l x r))"
    then have "x < c" if "c \<in> tree_vals r" for c
      using that by (auto simp: set_inorder intro: le_neq_trans)
    with d Node show "bst (Node l x r)"
      by (simp add: set_inorder)
  qed
qed

section \<open>Facts about insert and insertRecursively\<close>

text \<open>
  The loop of \<open>insert\<close> returns exactly when its search does not meet the value, and
  then it returns what \<open>insertRecursively\<close> gives on the same arguments; in a tree
  ordered with duplicates to the right the search meets every value that the tree holds.
\<close>

lemma insert_loop_Some:
  assumes "insert_loop v t = Some res"
  shows "\<not> on_path v t \<and> res = insertRecursively_at v t"
proof (rule insert_loop.raw_induct[where P = "\<lambda>v t res. \<not> on_path v t \<and> res = insertRecursively_at v t",
      OF _ assms])
  fix f and v :: 'a and current res
  assume IH: "\<And>v t res. f v t = Some res \<Longrightarrow> \<not> on_path v t \<and> res = insertRecursively_at v t"
    and body: "(case current of
        Null \<Rightarrow> Some (Inl TypeError)
      | Node l x r \<Rightarrow>
          if v < x then
            (if l = Null then Some (Inr (Node (Node Null v Null) x r))
             else Option.bind (f v l)
                    (\<lambda>res. Some (case res of Inl e \<Rightarrow> Inl e | Inr l' \<Rightarrow> Inr (Node l' x r))))
          else if v > x then
            (if r = Null then Some (Inr (Node l x (Node Null v Null)))
             else Option.bind (f v r)
                    (\<lambda>res. Some (case res of Inl e \<Rightarrow> Inl e | Inr r' \<Rightarrow> Inr (Node l x r'))))
          else f v current) = Some res"
  show "\<not> on_path v current \<and> res = insertRecursively_at v current"
  proof (cases current)
    case Null
    with body show ?thesis by simp
  next
    case (Node l x r)
    consider (lt) "v < x" | (gt) "x < v" "\<not> v < x" | (eq) "\<not> v < x" "\<not> x < v"
      by (cases "v < x"; cases "x < v") auto
    then show ?thesis
    proof cases
      case lt
      show ?thesis
      proof (cases "l = Null")
        case True
        with body Node lt show ?thesis by simp
      next
        case False
        with body Node lt obtain res0 where r0: "f v l = Some res0"
          and res: "res = (case res0 of Inl e \<Rightarrow> Inl e | Inr l' \<Rightarrow> Inr (Node l' x r))"
          by (auto simp: bind_eq_Some_conv)
        from IH[OF r0] res Node lt False show ?thesis by simp
      qed
    next
      case gt
      show ?thesis
      proof (cases "r = Null")
        case True
        with body Node gt show ?thesis by simp
      next
        case False
        with body Node gt obtain res0 where r0: "f v r = Some res0"
          and res: "res = (case res0 of Inl e \<Rightarrow> Inl e | Inr r' \<Rightarrow> Inr (Node l x r'))"
          by (auto simp: bind_eq_Some_conv)
        from IH[OF r0] res Node gt False show ?thesis by simp
      qed
    next
      case eq
      with body Node have "f v current = Some res" by simp
      then show ?thesis by (rule IH)
    qed
  qed
qed

lemma insert_loop_off_path:
  "\<not> on_path v t \<Longrightarrow> insert_loop v t = Some (insertRecursively_at v t)"
proof (induction t)
  case Null
  show ?case by (simp add: insert_loop.simps)
next
  case (Node l x r)
  then show ?case
    by (auto simp: insert_loop.simps[of v "Node l x r"] split: if_splits)
qed

lemma insert_loop_eq:
  "insert_loop v t = (if on_path v t then None else Some (insertRecursively_at v t))"
proof (cases "on_path v t")
  case True
  have "insert_loop v t = None"
  proof (cases "insert_loop v t")
    case (Some res)
    from insert_loop_Some[OF this] True show ?thesis by simp
  qed simp
  with True show ?thesis by simp
next
  case False
  then show ?thesis by (simp add: insert_loop_off_path)
qed

lemma on_path_vals: "on_path v t \<Longrightarrow> v \<in> tree_vals t"
  by (induction t) (auto split: if_splits)

lemma present_on_path: "bst_dup t \<Longrightarrow> v \<in> tree_vals t \<Longrightarrow> on_path v t"
  by (induction t) (fastforce split: if_splits)+

lemma insert_loop_returns:
  assumes "insert_loop v t = Some res"
  shows "res = insertRecursively_at v t"
  using insert_loop_Some[OF assms] by simp

lemma insert_loop_present:
  assumes "insert_loop v t = Some res"
  shows "bst_dup t \<longrightarrow> v \<notin> tree_vals t"
  using insert_loop_Some[OF assms] present_on_path[of t v] by blast

lemma insert_loop_fresh:
  "v \<notin> tree_vals t \<Longrightarrow> insert_loop v t = Some (insertRecursively_at v t)"
  using on_path_vals[of v t] insert_loop_off_path[of v t] by blast

lemma insertRecursively_at_returns:
  "t \<noteq> Null \<Longrightarrow> \<exists>t'. insertRecursively_at v t = Inr t' \<and> t' \<noteq> Null"
  by (induction t) (auto split: sum.splits)

lemma insertRecursively_returns: "\<exists>t'. insertRecursively v t = Inr t' \<and> t' \<noteq> Null"
  using insertRecursively_at_returns[of t v] by (simp add: insertRecursively_def)

lemma insertRecursively_at_mset:
  "insertRecursively_at v t = Inr t' \<Longrightarrow> mset (inorder t') = mset (inorder t) + {#v#}"
  by (induction t arbitrary: t') (auto split: if_splits sum.splits)

lemma insertRecursively_mset:
  "insertRecursively v t = Inr t' \<Longrightarrow> mset (inorder t') = mset (inorder t) + {#v#}"
  by (auto simp: insertRecursively_def insertRecursively_at_mset split: if_splits)

lemma insertRecursively_vals:
  "insertRecursively v t = Inr t' \<Longrightarrow> tree_vals t' = tree_vals t \<union> {v}"
  by (simp add: tree_vals_mset insertRecursively_mset)

lemma insertRecursively_at_vals:
  "insertRecursively_at v t = Inr t' \<Longrightarrow> tree_vals t' = tree_vals t \<union> {v}"
  by (simp add: tree_vals_mset insertRecursively_at_mset)

lemma insertRecursively_at_bst_dup:
  "bst_dup t \<Longrightarrow> insertRecursively_at v t = Inr t' \<Longrightarrow> bst_dup t'"
proof (induction t arbitrary: t')
  case Null
  then show ?case by simp
next
  case (Node l x r)
  show ?case
  proof (cases "v < x")
    case True
    show ?thesis
    proof (cases "l = Null")
      case True
      with \<open>v < x\<close> Node.prems show ?thesis by auto
    next
      case False
      with \<open>v < x\<close> Node.prems obtain l' where l': "insertRecursively_at v l = Inr l'" and t': "t' = Node l' x r"
        by (auto split: sum.splits)
      from Node.IH(1)[OF _ l'] Node.prems(1) have "bst_dup l'" by simp
      with insertRecursively_at_vals[OF l'] t' \<open>v < x\<close> Node.prems(1) show ?thesis by auto
    qed
  next
    case ge: False
    show ?thesis
    proof (cases "r = Null")
      case True
      with ge Node.prems show ?thesis by auto
    next
      case False
      with ge Node.prems obtain r' where r': "insertRecursively_at v r = Inr r'" and t': "t' = Node l x r'"
        by (auto split: sum.splits)
      from Node.IH(2)[OF _ r'] Node.prems(1) have "bst_dup r'" by simp
      with insertRecursively_at_vals[OF r'] t' ge Node.prems(1) show ?thesis by auto
    qed
  qed
qed

lemma insertRecursively_bst_dup:
  "bst_dup t \<Longrightarrow> insertRecursively v t = Inr t' \<Longrightarrow> bst_dup t'"
  by (auto simp: insertRecursively_def insertRecursively_at_bst_dup split: if_splits)

section \<open>Facts about remove\<close>

lemma unlink_leftmost_inorder:
  "unlink_leftmost l x r = (s, t') \<Longrightarrow> inorder (Node l x r) = s # inorder t'"
  by (induction l x r arbitrary: s t' rule: unlink_leftmost.induct) (auto split: prod.splits)

lemma unlink_leftmost_bst_dup:
  "unlink_leftmost l x r = (s, t') \<Longrightarrow> bst_dup (Node l x r) \<Longrightarrow> bst_dup t' \<and> (\<forall>y \<in> tree_vals t'. s \<le> y)"
proof (induction l x r arbitrary: s t' rule: unlink_leftmost.induct)
  case (1 x r)
  then show ?case by simp
next
  case (2 ll lx lr x r)
  from "2.prems"(1) obtain l' where ul: "unlink_leftmost ll lx lr = (s, l')" and t': "t' = Node l' x r"
    by (auto split: prod.splits)
  from "2.IH"[OF ul] "2.prems"(2) have IH: "bst_dup l'" "\<forall>y \<in> tree_vals l'. s \<le> y" by simp_all
  from unlink_leftmost_inorder[OF ul] have io: "inorder (Node ll lx lr) = s # inorder l'" .
  then have "tree_vals (Node ll lx lr) = {s} \<union> tree_vals l'"
    by (simp only: tree_vals_mset) simp
  with "2.prems"(2) have sx: "s < x" and l'x: "\<forall>y \<in> tree_vals l'. y < x" by auto
  from sx "2.prems"(2) have "\<forall>y \<in> tree_vals r. s \<le> y" by fastforce
  with IH sx l'x t' "2.prems"(2) show ?case by auto
qed

lemma unlink_inorder:
  "unlink l x r = (n, t') \<Longrightarrow> inorder t' = inorder l @ inorder r"
  by (auto simp: unlink_def split: if_splits tree.splits prod.splits dest!: unlink_leftmost_inorder)

lemma unlink_bst_dup:
  assumes "unlink l x r = (n, t')" and "bst_dup (Node l x r)"
  shows "bst_dup t'"
proof -
  consider (leaf) "l = Null" "r = Null"
    | (two) rl rx rr where "l \<noteq> Null" "r = Node rl rx rr"
    | (one) "l = Null \<and> r \<noteq> Null \<or> l \<noteq> Null \<and> r = Null"
    by (cases l; cases r) auto
  then show ?thesis
  proof cases
    case leaf
    with assms show ?thesis by (simp add: unlink_def)
  next
    case two
    show ?thesis
    proof (cases "rl = Null")
      case True
      with two assms show ?thesis by (fastforce simp: unlink_def)
    next
      case False
      with two assms(1) obtain s r' where ul: "unlink_leftmost rl rx rr = (s, r')"
        and t': "t' = Node l s r'"
        by (auto simp: unlink_def split: prod.splits)
      from unlink_leftmost_bst_dup[OF ul] assms(2) two
      have r': "bst_dup r'" "\<forall>y \<in> tree_vals r'. s \<le> y"
        by simp_all
      from unlink_leftmost_inorder[OF ul] have "s \<in> tree_vals r"
        using two by (simp only: tree_vals_mset) simp
      with assms(2) have "\<forall>y \<in> tree_vals l. y < s" by fastforce
      with r' t' assms(2) show ?thesis by simp
    qed
  next
    case one
    with assms show ?thesis by (auto simp: unlink_def)
  qed
qed

lemma remove_loop_inorder:
  "remove_loop v t = Inr (n, t') \<Longrightarrow> \<exists>xs ys. inorder t = xs @ v # ys \<and> inorder t' = xs @ ys"
proof (induction t arbitrary: t')
  case Null
  then show ?case by simp
next
  case (Node l x r)
  consider (eq) "x = v" | (lt) "x \<noteq> v" "v < x" | (gt) "x \<noteq> v" "\<not> v < x" by blast
  then show ?case
  proof cases
    case eq
    with Node.prems have "unlink l x r = (n, t')" by simp
    from unlink_inorder[OF this] eq show ?thesis by auto
  next
    case lt
    with Node.prems obtain l' where l': "remove_loop v l = Inr (n, l')" and t': "t' = Node l' x r"
      by (auto split: sum.splits)
    from Node.IH(1)[OF l'] obtain xs ys where "inorder l = xs @ v # ys" "inorder l' = xs @ ys" by blast
    with t' have "inorder (Node l x r) = xs @ v # (ys @ x # inorder r) \<and> inorder t' = xs @ (ys @ x # inorder r)"
      by simp
    then show ?thesis by blast
  next
    case gt
    with Node.prems obtain r' where r': "remove_loop v r = Inr (n, r')" and t': "t' = Node l x r'"
      by (auto split: sum.splits)
    from Node.IH(2)[OF r'] obtain xs ys where "inorder r = xs @ v # ys" "inorder r' = xs @ ys" by blast
    with t' have "inorder (Node l x r) = (inorder l @ x # xs) @ v # ys \<and> inorder t' = (inorder l @ x # xs) @ ys"
      by simp
    then show ?thesis by blast
  qed
qed

lemma remove_loop_vals:
  "remove_loop v t = Inr (n, t') \<Longrightarrow> tree_vals t' \<subseteq> tree_vals t"
  by (drule remove_loop_inorder) (auto simp only: tree_vals_mset mset_append set_mset_union set_mset_mset set_append list.set)

lemma remove_loop_bst_dup:
  "bst_dup t \<Longrightarrow> remove_loop v t = Inr (n, t') \<Longrightarrow> bst_dup t'"
proof (induction t arbitrary: t')
  case Null
  then show ?case by simp
next
  case (Node l x r)
  consider (eq) "x = v" | (lt) "x \<noteq> v" "v < x" | (gt) "x \<noteq> v" "\<not> v < x" by blast
  then show ?case
  proof cases
    case eq
    with Node.prems have "unlink l x r = (n, t')" by simp
    from unlink_bst_dup[OF this Node.prems(1)] show ?thesis .
  next
    case lt
    with Node.prems obtain l' where l': "remove_loop v l = Inr (n, l')" and t': "t' = Node l' x r"
      by (auto split: sum.splits)
    from Node.IH(1)[OF _ l'] Node.prems(1) have "bst_dup l'" by simp
    with remove_loop_vals[OF l'] t' Node.prems(1) show ?thesis by auto
  next
    case gt
    with Node.prems obtain r' where r': "remove_loop v r = Inr (n, r')" and t': "t' = Node l x r'"
      by (auto split: sum.splits)
    from Node.IH(2)[OF _ r'] Node.prems(1) have "bst_dup r'" by simp
    with remove_loop_vals[OF r'] t' Node.prems(1) show ?thesis by auto
  qed
qed

lemma remove_absent: "v \<notin> tree_vals t \<Longrightarrow> remove_loop v t = Inl TypeError"
  by (induction t) auto

section \<open>Tree-shaped object graphs\<close>

text \<open>
  A tree below a reference is not affected by a change of an object that is not one of
  its own.
\<close>

lemma owns_tree_rep: "owns h p t \<Longrightarrow> tree_rep h p t"
  by (induction t arbitrary: p) (auto split: option.splits)

lemma refs_frame: "\<forall>a \<in> refs h p t. h' a = h a \<Longrightarrow> refs h' p t = refs h p t"
proof (induction t arbitrary: p)
  case Null
  show ?case by simp
next
  case (Node l x r)
  show ?case
  proof (cases p)
    case None
    then show ?thesis by simp
  next
    case (Some a)
    with Node.prems have a: "h' a = h a" by simp
    have "refs h' (left (h a)) l = refs h (left (h a)) l"
      by (rule Node.IH(1)) (use Node.prems Some in simp)
    moreover have "refs h' (right (h a)) r = refs h (right (h a)) r"
      by (rule Node.IH(2)) (use Node.prems Some in simp)
    ultimately show ?thesis using Some a by simp
  qed
qed

lemma owns_frame: "\<forall>a \<in> refs h p t. h' a = h a \<Longrightarrow> owns h' p t = owns h p t"
proof (induction t arbitrary: p)
  case Null
  show ?case by simp
next
  case (Node l x r)
  show ?case
  proof (cases p)
    case None
    then show ?thesis by simp
  next
    case (Some a)
    with Node.prems have a: "h' a = h a" by simp
    have l: "\<forall>b \<in> refs h (left (h a)) l. h' b = h b"
      using Node.prems Some by simp
    have r: "\<forall>b \<in> refs h (right (h a)) r. h' b = h b"
      using Node.prems Some by simp
    from Node.IH(1)[OF l] Node.IH(2)[OF r] refs_frame[OF l] refs_frame[OF r]
    show ?thesis using Some a by simp
  qed
qed

lemma tree_rep_frame: "\<forall>a \<in> refs h p t. h' a = h a \<Longrightarrow> tree_rep h' p t = tree_rep h p t"
proof (induction t arbitrary: p)
  case Null
  show ?case by simp
next
  case (Node l x r)
  show ?case
  proof (cases p)
    case None
    then show ?thesis by simp
  next
    case (Some a)
    with Node.prems have a: "h' a = h a" by simp
    have l: "\<forall>b \<in> refs h (left (h a)) l. h' b = h b"
      using Node.prems Some by simp
    have r: "\<forall>b \<in> refs h (right (h a)) r. h' b = h b"
      using Node.prems Some by simp
    from Node.IH(1)[OF l] Node.IH(2)[OF r]
    show ?thesis using Some a by simp
  qed
qed

lemma refs_Null_iff: "owns h p t \<Longrightarrow> (p = None) = (t = Null)"
  by (cases t) (auto split: option.splits)

section \<open>Insertion on the object graph refines insertion on trees\<close>

text \<open>
  On a tree-shaped object graph, with a fresh address for the new object, the two
  insertion methods give a graph that represents the tree of the tree model; the loop of
  \<open>insert\<close> reaches every bound on its iterations when its search meets the value.
\<close>

lemma owns_Null_iff: "owns h p t \<Longrightarrow> (p = None) = (t = Null)"
  by (rule refs_Null_iff)

lemma owns_leaf:
  "h a = new_node v \<Longrightarrow> owns h (Some a) (Node Null v Null) \<and> refs h (Some a) (Node Null v Null) = {a}"
  by (simp add: new_node_def)

lemma owns_with_left:
  assumes own: "owns h (Some c) (Node l x r)"
    and v: "val (h' c) = x" and lq: "left (h' c) = q" and rq: "right (h' c) = right (h c)"
    and oq: "owns h' q l'" and cq: "c \<notin> refs h' q l'"
    and dq: "refs h' q l' \<inter> refs h (right (h c)) r = {}"
    and fr: "\<forall>a \<in> refs h (right (h c)) r. h' a = h a"
  shows "owns h' (Some c) (Node l' x r)
    \<and> refs h' (Some c) (Node l' x r) = {c} \<union> refs h' q l' \<union> refs h (right (h c)) r"
proof -
  from own have or: "owns h (right (h c)) r" and cnr: "c \<notin> refs h (right (h c)) r"
    by simp_all
  from owns_frame[where h' = h', OF fr] refs_frame[where h' = h', OF fr] or
  have "owns h' (right (h c)) r" "refs h' (right (h c)) r = refs h (right (h c)) r" by simp_all
  with v lq rq oq cq dq cnr show ?thesis by simp
qed

lemma owns_with_right:
  assumes own: "owns h (Some c) (Node l x r)"
    and v: "val (h' c) = x" and lq: "left (h' c) = left (h c)" and rq: "right (h' c) = q"
    and oq: "owns h' q r'" and cq: "c \<notin> refs h' q r'"
    and dq: "refs h (left (h c)) l \<inter> refs h' q r' = {}"
    and fr: "\<forall>a \<in> refs h (left (h c)) l. h' a = h a"
  shows "owns h' (Some c) (Node l x r')
    \<and> refs h' (Some c) (Node l x r') = {c} \<union> refs h (left (h c)) l \<union> refs h' q r'"
proof -
  from own have ol: "owns h (left (h c)) l" and cnl: "c \<notin> refs h (left (h c)) l"
    by simp_all
  from owns_frame[where h' = h', OF fr] refs_frame[where h' = h', OF fr] ol
  have "owns h' (left (h c)) l" "refs h' (left (h c)) l = refs h (left (h c)) l" by simp_all
  with v lq rq oq cq dq cnl show ?thesis by simp
qed

text \<open>The result of the recursive insertion, seen on the object graph.\<close>

lemma insertRecursively_at_st_refines:
  assumes "owns (heap s) (Some c) t" and "new \<notin> refs (heap s) (Some c) t"
    and "root s \<noteq> None" and "size t < k"
  shows "\<exists>s' t'. insertRecursively_st k new v (Some c) s = Some (Inr s')
      \<and> insertRecursively_at v t = Inr t'
      \<and> root s' = root s
      \<and> owns (heap s') (Some c) t'
      \<and> refs (heap s') (Some c) t' = refs (heap s) (Some c) t \<union> {new}
      \<and> (\<forall>a. a \<notin> refs (heap s) (Some c) t \<longrightarrow> a \<noteq> new \<longrightarrow> heap s' a = heap s a)"
  using assms
proof (induction t arbitrary: c k)
  case Null
  then show ?case by simp
next
  case (Node l x r)
  let ?h = "heap s"
  let ?A = "refs ?h (Some c) (Node l x r)"
  from Node.prems(4) obtain k' where k: "k = Suc k'" by (cases k) auto
  from Node.prems(3) obtain ro where ro: "root s = Some ro" by auto
  from Node.prems(1) have vc: "val (?h c) = x" and ol: "owns ?h (left (?h c)) l"
    and or: "owns ?h (right (?h c)) r"
    and cnl: "c \<notin> refs ?h (left (?h c)) l" and cnr: "c \<notin> refs ?h (right (?h c)) r"
    and disj: "refs ?h (left (?h c)) l \<inter> refs ?h (right (?h c)) r = {}"
    by simp_all
  have A: "?A = {c} \<union> refs ?h (left (?h c)) l \<union> refs ?h (right (?h c)) r" by simp
  from Node.prems(2) have nc: "new \<noteq> c" and nl: "new \<notin> refs ?h (left (?h c)) l"
    and nr: "new \<notin> refs ?h (right (?h c)) r" by simp_all
  note ln = owns_Null_iff[OF ol] and rn = owns_Null_iff[OF or]
  have "\<exists>s' t'. insertRecursively_st k new v (Some c) s = Some (Inr s')
      \<and> insertRecursively_at v (Node l x r) = Inr t'
      \<and> root s' = root s
      \<and> owns (heap s') (Some c) t'
      \<and> refs (heap s') (Some c) t' = ?A \<union> {new}
      \<and> (\<forall>a. a \<notin> ?A \<longrightarrow> a \<noteq> new \<longrightarrow> heap s' a = ?h a)"
  proof (cases "v < x")
    case True
    show ?thesis
    proof (cases "l = Null")
      case lnull: True
      with ln have le: "left (?h c) = None" by simp
      let ?h' = "(?h(new := new_node v))(c := (?h c)\<lparr>left := Some new\<rparr>)"
      let ?s' = "s\<lparr>heap := ?h'\<rparr>"
      have run: "insertRecursively_st k new v (Some c) s = Some (Inr ?s')"
        using k ro vc True le by simp
      have rec: "insertRecursively_at v (Node l x r) = Inr (Node (Node Null v Null) x r)"
        using True lnull by simp
      have hn: "?h' new = new_node v" using nc by simp
      have hc: "val (?h' c) = x" "left (?h' c) = Some new" "right (?h' c) = right (?h c)"
        using vc by simp_all
      note leaf = owns_leaf[where h = ?h' and a = new and v = v, OF hn]
      have f: "\<forall>a \<in> refs ?h (right (?h c)) r. ?h' a = ?h a" using cnr nr by auto
      have cq: "c \<notin> refs ?h' (Some new) (Node Null v Null)"
        unfolding leaf[THEN conjunct2] using nc by blast
      have dq: "refs ?h' (Some new) (Node Null v Null) \<inter> refs ?h (right (?h c)) r = {}"
        unfolding leaf[THEN conjunct2] using nr by blast
      from owns_with_left[OF Node.prems(1) hc leaf[THEN conjunct1] cq dq f]
      have o: "owns ?h' (Some c) (Node (Node Null v Null) x r)"
        and rf: "refs ?h' (Some c) (Node (Node Null v Null) x r)
            = {c} \<union> refs ?h' (Some new) (Node Null v Null) \<union> refs ?h (right (?h c)) r"
        by blast+
      have l0: "refs ?h (left (?h c)) l = {}" using lnull by simp
      have rf': "refs ?h' (Some c) (Node (Node Null v Null) x r) = ?A \<union> {new}"
        unfolding rf leaf[THEN conjunct2] A l0 by blast
      have fr: "\<forall>a. a \<notin> ?A \<longrightarrow> a \<noteq> new \<longrightarrow> ?h' a = ?h a" unfolding A by simp
      have "root ?s' = root s" "heap ?s' = ?h'" by simp_all
      with run rec o rf' fr show ?thesis by (metis (no_types, lifting))
    next
      case False
      with ln obtain cl where cl: "left (?h c) = Some cl" by auto
      have sz: "size l < k'" using Node.prems(4) k by simp
      from Node.IH(1)[OF ol[unfolded cl] nl[unfolded cl] Node.prems(3) sz] obtain s' l' where
        run: "insertRecursively_st k' new v (Some cl) s = Some (Inr s')"
        and rec: "insertRecursively_at v l = Inr l'"
        and rt: "root s' = root s"
        and o': "owns (heap s') (Some cl) l'"
        and rf: "refs (heap s') (Some cl) l' = refs ?h (Some cl) l \<union> {new}"
        and fr: "\<forall>a. a \<notin> refs ?h (Some cl) l \<longrightarrow> a \<noteq> new \<longrightarrow> heap s' a = ?h a"
        by blast
      have hceq: "heap s' c = ?h c" using fr cnl cl nc by simp
      then have hc: "val (heap s' c) = x" "left (heap s' c) = Some cl" "right (heap s' c) = right (?h c)"
        using vc cl by simp_all
      have f: "\<forall>a \<in> refs ?h (right (?h c)) r. heap s' a = ?h a" using fr disj nr cl by auto
      have cq: "c \<notin> refs (heap s') (Some cl) l'" using rf cnl cl nc by simp
      have dq: "refs (heap s') (Some cl) l' \<inter> refs ?h (right (?h c)) r = {}"
        using rf disj nr cl by auto
      from owns_with_left[OF Node.prems(1) hc o' cq dq f]
      have o: "owns (heap s') (Some c) (Node l' x r)"
        and rf2: "refs (heap s') (Some c) (Node l' x r)
            = {c} \<union> refs (heap s') (Some cl) l' \<union> refs ?h (right (?h c)) r"
        by blast+
      have rf': "refs (heap s') (Some c) (Node l' x r) = ?A \<union> {new}"
        unfolding rf2 rf A cl by blast
      have fr': "\<forall>a. a \<notin> ?A \<longrightarrow> a \<noteq> new \<longrightarrow> heap s' a = ?h a"
        using fr unfolding A cl by simp
      have run': "insertRecursively_st k new v (Some c) s = Some (Inr s')"
        using k ro vc True cl run by simp
      have rec': "insertRecursively_at v (Node l x r) = Inr (Node l' x r)"
        using True False rec by simp
      from run' rec' rt o rf' fr' show ?thesis by blast
    qed
  next
    case ge: False
    show ?thesis
    proof (cases "r = Null")
      case rnull: True
      with rn have re: "right (?h c) = None" by simp
      let ?h' = "(?h(new := new_node v))(c := (?h c)\<lparr>right := Some new\<rparr>)"
      let ?s' = "s\<lparr>heap := ?h'\<rparr>"
      have run: "insertRecursively_st k new v (Some c) s = Some (Inr ?s')"
        using k ro vc ge re by simp
      have rec: "insertRecursively_at v (Node l x r) = Inr (Node l x (Node Null v Null))"
        using ge rnull by simp
      have hn: "?h' new = new_node v" using nc by simp
      have hc: "val (?h' c) = x" "left (?h' c) = left (?h c)" "right (?h' c) = Some new"
        using vc by simp_all
      note leaf = owns_leaf[where h = ?h' and a = new and v = v, OF hn]
      have f: "\<forall>a \<in> refs ?h (left (?h c)) l. ?h' a = ?h a" using cnl nl by auto
      have cq: "c \<notin> refs ?h' (Some new) (Node Null v Null)"
        unfolding leaf[THEN conjunct2] using nc by blast
      have dq: "refs ?h (left (?h c)) l \<inter> refs ?h' (Some new) (Node Null v Null) = {}"
        unfolding leaf[THEN conjunct2] using nl by blast
      from owns_with_right[OF Node.prems(1) hc leaf[THEN conjunct1] cq dq f]
      have o: "owns ?h' (Some c) (Node l x (Node Null v Null))"
        and rf: "refs ?h' (Some c) (Node l x (Node Null v Null))
            = {c} \<union> refs ?h (left (?h c)) l \<union> refs ?h' (Some new) (Node Null v Null)"
        by blast+
      have r0: "refs ?h (right (?h c)) r = {}" using rnull by simp
      have rf': "refs ?h' (Some c) (Node l x (Node Null v Null)) = ?A \<union> {new}"
        unfolding rf leaf[THEN conjunct2] A r0 by blast
      have fr: "\<forall>a. a \<notin> ?A \<longrightarrow> a \<noteq> new \<longrightarrow> ?h' a = ?h a" unfolding A by simp
      have "root ?s' = root s" "heap ?s' = ?h'" by simp_all
      with run rec o rf' fr show ?thesis by (metis (no_types, lifting))
    next
      case False
      with rn obtain cr where cr: "right (?h c) = Some cr" by auto
      have sz: "size r < k'" using Node.prems(4) k by simp
      from Node.IH(2)[OF or[unfolded cr] nr[unfolded cr] Node.prems(3) sz] obtain s' r' where
        run: "insertRecursively_st k' new v (Some cr) s = Some (Inr s')"
        and rec: "insertRecursively_at v r = Inr r'"
        and rt: "root s' = root s"
        and o': "owns (heap s') (Some cr) r'"
        and rf: "refs (heap s') (Some cr) r' = refs ?h (Some cr) r \<union> {new}"
        and fr: "\<forall>a. a \<notin> refs ?h (Some cr) r \<longrightarrow> a \<noteq> new \<longrightarrow> heap s' a = ?h a"
        by blast
      have hceq: "heap s' c = ?h c" using fr cnr cr nc by simp
      then have hc: "val (heap s' c) = x" "left (heap s' c) = left (?h c)" "right (heap s' c) = Some cr"
        using vc cr by simp_all
      have f: "\<forall>a \<in> refs ?h (left (?h c)) l. heap s' a = ?h a" using fr disj nl cr by auto
      have cq: "c \<notin> refs (heap s') (Some cr) r'" using rf cnr cr nc by simp
      have dq: "refs ?h (left (?h c)) l \<inter> refs (heap s') (Some cr) r' = {}"
        using rf disj nl cr by auto
      from owns_with_right[OF Node.prems(1) hc o' cq dq f]
      have o: "owns (heap s') (Some c) (Node l x r')"
        and rf2: "refs (heap s') (Some c) (Node l x r')
            = {c} \<union> refs ?h (left (?h c)) l \<union> refs (heap s') (Some cr) r'"
        by blast+
      have rf': "refs (heap s') (Some c) (Node l x r') = ?A \<union> {new}"
        unfolding rf2 rf A cr by blast
      have fr': "\<forall>a. a \<notin> ?A \<longrightarrow> a \<noteq> new \<longrightarrow> heap s' a = ?h a"
        using fr unfolding A cr by simp
      have run': "insertRecursively_st k new v (Some c) s = Some (Inr s')"
        using k ro vc ge cr run by simp
      have rec': "insertRecursively_at v (Node l x r) = Inr (Node l x r')"
        using ge False rec by simp
      from run' rec' rt o rf' fr' show ?thesis by blast
    qed
  qed
  then show ?case .
qed

lemma insertRecursively_st_refines:
  assumes "owns (heap s) (root s) t" and "new \<notin> refs (heap s) (root s) t" and "size t < k"
  shows "\<exists>s' t'. insertRecursively_st k new v (root s) s = Some (Inr s')
      \<and> insertRecursively v t = Inr t' \<and> owns (heap s') (root s') t'"
proof (cases "t = Null")
  case True
  with owns_Null_iff[OF assms(1)] have r: "root s = None" by simp
  from assms(3) obtain k' where k: "k = Suc k'" by (cases k) auto
  let ?s' = "s\<lparr>heap := (heap s)(new := new_node v), root := Some new\<rparr>"
  have "insertRecursively_st k new v (root s) s = Some (Inr ?s')" using r k by simp
  moreover have "insertRecursively v t = Inr (Node Null v Null)"
    using True by (simp add: insertRecursively_def)
  moreover have "owns (heap ?s') (root ?s') (Node Null v Null)"
    using owns_leaf[of "(heap s)(new := new_node v)" new v] by simp
  ultimately show ?thesis by blast
next
  case False
  with owns_Null_iff[OF assms(1)] obtain c where c: "root s = Some c" by auto
  then have rs: "root s \<noteq> None" by simp
  from insertRecursively_at_st_refines[OF assms(1)[unfolded c] assms(2)[unfolded c] rs assms(3), of v]
  obtain s' t' where "insertRecursively_st k new v (Some c) s = Some (Inr s')"
    "insertRecursively_at v t = Inr t'" "root s' = root s" "owns (heap s') (Some c) t'"
    by blast
  with False c show ?thesis by (simp add: insertRecursively_def)
qed

lemma insert_loop_st_equal: "val (heap s c) = v \<Longrightarrow> insert_loop_st k new v c s = None"
  by (induction k) simp_all

lemma insert_loop_st_on_path:
  "owns (heap s) (Some c) t \<Longrightarrow> on_path v t \<Longrightarrow> insert_loop_st k new v c s = None"
proof (induction t arbitrary: c k)
  case Null
  then show ?case by simp
next
  case (Node l x r)
  let ?h = "heap s"
  from Node.prems(1) have vc: "val (?h c) = x" and ol: "owns ?h (left (?h c)) l"
    and or: "owns ?h (right (?h c)) r" by simp_all
  note ln = owns_Null_iff[OF ol] and rn = owns_Null_iff[OF or]
  show ?case
  proof (cases k)
    case 0
    then show ?thesis by simp
  next
    case (Suc k')
    consider (lt) "v < x" | (gt) "x < v" "\<not> v < x" | (eq) "\<not> v < x" "\<not> x < v"
      by (cases "v < x"; cases "x < v") auto
    then show ?thesis
    proof cases
      case lt
      with Node.prems(2) have p: "on_path v l" by simp
      then have "l \<noteq> Null" by auto
      with ln obtain cl where cl: "left (?h c) = Some cl" by auto
      from Node.IH(1)[OF ol[unfolded cl] p, of k'] Suc vc lt cl show ?thesis by simp
    next
      case gt
      with Node.prems(2) have p: "on_path v r" by simp
      then have "r \<noteq> Null" by auto
      with rn obtain cr where cr: "right (?h c) = Some cr" by auto
      from Node.IH(2)[OF or[unfolded cr] p, of k'] Suc vc gt cr show ?thesis by simp
    next
      case eq
      then have "v = x" by simp
      with vc show ?thesis by (simp add: insert_loop_st_equal)
    qed
  qed
qed

lemma insert_loop_st_off_path:
  "owns (heap s) (Some c) t \<Longrightarrow> \<not> on_path v t \<Longrightarrow> root s \<noteq> None \<Longrightarrow> size t < k
     \<Longrightarrow> \<exists>s'. insert_loop_st k new v c s = Some s'
           \<and> insertRecursively_st k new v (Some c) s = Some (Inr s')"
proof (induction t arbitrary: c k)
  case Null
  then show ?case by simp
next
  case (Node l x r)
  let ?h = "heap s"
  from Node.prems(4) obtain k' where k: "k = Suc k'" by (cases k) auto
  from Node.prems(3) obtain ro where ro: "root s = Some ro" by auto
  from Node.prems(1) have vc: "val (?h c) = x" and ol: "owns ?h (left (?h c)) l"
    and or: "owns ?h (right (?h c)) r" by simp_all
  note ln = owns_Null_iff[OF ol] and rn = owns_Null_iff[OF or]
  consider (lt) "v < x" | (gt) "x < v" "\<not> v < x"
    using Node.prems(2) by (cases "v < x"; cases "x < v") auto
  then show ?case
  proof cases
    case lt
    show ?thesis
    proof (cases "l = Null")
      case True
      with ln have "left (?h c) = None" by simp
      with k ro vc lt show ?thesis by simp
    next
      case False
      with ln obtain cl where cl: "left (?h c) = Some cl" by auto
      from lt Node.prems(2) have "\<not> on_path v l" by simp
      from Node.IH(1)[OF ol[unfolded cl] this Node.prems(3), of k'] Node.prems(4) k
      obtain s' where "insert_loop_st k' new v cl s = Some s'"
        "insertRecursively_st k' new v (Some cl) s = Some (Inr s')" by auto
      with k ro vc lt cl show ?thesis by simp
    qed
  next
    case gt
    show ?thesis
    proof (cases "r = Null")
      case True
      with rn have "right (?h c) = None" by simp
      with k ro vc gt show ?thesis by simp
    next
      case False
      with rn obtain cr where cr: "right (?h c) = Some cr" by auto
      from gt Node.prems(2) have "\<not> on_path v r" by simp
      from Node.IH(2)[OF or[unfolded cr] this Node.prems(3), of k'] Node.prems(4) k
      obtain s' where "insert_loop_st k' new v cr s = Some s'"
        "insertRecursively_st k' new v (Some cr) s = Some (Inr s')" by auto
      with k ro vc gt cr show ?thesis by simp
    qed
  qed
qed

lemma insert_st_refines:
  assumes "owns (heap s) (root s) t" and "new \<notin> refs (heap s) (root s) t" and "size t < k"
  shows "case insert v t of
           None \<Rightarrow> insert_st k new v s = None
         | Some (Inl e) \<Rightarrow> False
         | Some (Inr t') \<Rightarrow>
             (\<exists>s'. insert_st k new v s = Some s' \<and> owns (heap s') (root s') t')"
proof (cases "t = Null")
  case True
  with owns_Null_iff[OF assms(1)] have r: "root s = None" by simp
  let ?s' = "s\<lparr>heap := (heap s)(new := new_node v), root := Some new\<rparr>"
  have "owns (heap ?s') (root ?s') (Node Null v Null)"
    using owns_leaf[of "(heap s)(new := new_node v)" new v] by simp
  with True r show ?thesis by (simp add: insert_def insert_st_def)
next
  case False
  with owns_Null_iff[OF assms(1)] obtain c where c: "root s = Some c" by auto
  then have rs: "root s \<noteq> None" by simp
  note oc = assms(1)[unfolded c]
  show ?thesis
  proof (cases "on_path v t")
    case True
    with insert_loop_st_on_path[OF oc True, of k new] False c show ?thesis
      by (simp add: insert_def insert_st_def insert_loop_eq)
  next
    case off: False
    from insert_loop_st_off_path[OF oc off rs assms(3), of new] obtain s' where
      l: "insert_loop_st k new v c s = Some s'"
      and r: "insertRecursively_st k new v (Some c) s = Some (Inr s')" by blast
    from insertRecursively_at_st_refines[OF oc assms(2)[unfolded c] rs assms(3), of v] r
    obtain t' where "insertRecursively_at v t = Inr t'" "root s' = root s" "owns (heap s') (Some c) t'"
      by auto
    with l off False c show ?thesis
      by (simp add: insert_def insert_st_def insert_loop_eq)
  qed
qed

section \<open>remove on the object graph refines remove on trees\<close>

text \<open>
  On a tree-shaped object graph the statements of \<open>remove\<close>, run on the objects, give
  what the functions \<open>remove_loop\<close>, \<open>unlink\<close> and \<open>unlink_leftmost\<close> give on the tree:
  the same error, or a graph that represents the tree after the call together with a
  returned reference that represents the returned node.
\<close>

lemma walk_left_unlink:
  assumes "owns h (Some c) (Node l x r)" and "unlink_leftmost l x r = (s, t')" and "size l < k"
  shows "\<exists>rp rt. walk_left k h rp0 c = Some (rp, rt) \<and> val (h rt) = s
          \<and> rt \<in> refs h (Some c) (Node l x r)
          \<and> (l = Null \<longrightarrow> rp = rp0 \<and> rt = c)
          \<and> (l \<noteq> Null \<longrightarrow> rp \<in> refs h (Some c) (Node l x r) \<and> rp \<noteq> rt
                \<and> owns (h(rp := (h rp)\<lparr>left := right (h rt)\<rparr>)) (Some c) t'
                \<and> refs (h(rp := (h rp)\<lparr>left := right (h rt)\<rparr>)) (Some c) t'
                     \<subseteq> refs h (Some c) (Node l x r))"
  using assms
proof (induction l x r arbitrary: c rp0 k s t' rule: unlink_leftmost.induct)
  case (1 x r)
  then obtain k' where k: "k = Suc k'" by (cases k) auto
  from "1.prems" have "left (h c) = None" by (simp split: option.splits)
  with "1.prems" k show ?case by simp
next
  case (2 ll lx lr x r)
  then obtain k' where k: "k = Suc k'" and k': "size ll < k'" by (cases k) auto
  from "2.prems"(1) obtain cl where cl: "left (h c) = Some cl"
    and ocl: "owns h (Some cl) (Node ll lx lr)"
    and or: "owns h (right (h c)) r"
    and vc: "val (h c) = x"
    and cnl: "c \<notin> refs h (Some cl) (Node ll lx lr)"
    and cnr: "c \<notin> refs h (right (h c)) r"
    and disj: "refs h (Some cl) (Node ll lx lr) \<inter> refs h (right (h c)) r = {}"
    by (auto split: option.splits)
  from "2.prems"(2) obtain l' where ul: "unlink_leftmost ll lx lr = (s, l')" and t': "t' = Node l' x r"
    by (auto split: prod.splits)
  from "2.IH"[OF ocl ul k', of c] obtain rp rt where
    w: "walk_left k' h c cl = Some (rp, rt)" and vs: "val (h rt) = s"
    and rt: "rt \<in> refs h (Some cl) (Node ll lx lr)"
    and base: "ll = Null \<longrightarrow> rp = c \<and> rt = cl"
    and step: "ll \<noteq> Null \<longrightarrow> rp \<in> refs h (Some cl) (Node ll lx lr) \<and> rp \<noteq> rt
                \<and> owns (h(rp := (h rp)\<lparr>left := right (h rt)\<rparr>)) (Some cl) l'
                \<and> refs (h(rp := (h rp)\<lparr>left := right (h rt)\<rparr>)) (Some cl) l'
                     \<subseteq> refs h (Some cl) (Node ll lx lr)"
    by blast
  let ?h2 = "h(rp := (h rp)\<lparr>left := right (h rt)\<rparr>)"
  have walk: "walk_left k h rp0 c = Some (rp, rt)" using k cl w by simp
  have rtc: "rt \<in> refs h (Some c) (Node (Node ll lx lr) x r)" using rt cl by auto
  have rpin: "rp \<in> refs h (Some c) (Node (Node ll lx lr) x r)"
    using base step cl by (cases "ll = Null") auto
  have rpnrt: "rp \<noteq> rt" using base step rt cnl by (cases "ll = Null") auto
  have rp_notin_r: "rp \<notin> refs h (right (h c)) r"
    using base step disj cnr by (cases "ll = Null") auto
  have r_frame: "\<forall>a \<in> refs h (right (h c)) r. ?h2 a = h a"
    using rp_notin_r by auto
  have or2: "owns ?h2 (right (h c)) r"
    using owns_frame[where h' = ?h2, OF r_frame] or by (simp only:)
  have rr2: "refs ?h2 (right (h c)) r = refs h (right (h c)) r"
    by (rule refs_frame[where h' = ?h2, OF r_frame])
  have "owns ?h2 (Some c) (Node l' x r) \<and> refs ?h2 (Some c) (Node l' x r) \<subseteq> refs h (Some c) (Node (Node ll lx lr) x r)"
  proof (cases "ll = Null")
    case True
    with base have rp: "rp = c" and rte: "rt = cl" by simp_all
    from True ul have l': "l' = lr" and "s = lx" by simp_all
    from ocl True have olr: "owns h (right (h cl)) lr" by (simp split: option.splits)
    have sub: "refs h (right (h cl)) lr \<subseteq> refs h (Some cl) (Node ll lx lr)" by auto
    have l_frame: "\<forall>a \<in> refs h (right (h cl)) lr. ?h2 a = h a"
      using rp cnl sub by auto
    have olr2: "owns ?h2 (right (h cl)) lr"
      using owns_frame[where h' = ?h2, OF l_frame] olr by (simp only:)
    have rl2: "refs ?h2 (right (h cl)) lr = refs h (right (h cl)) lr"
      by (rule refs_frame[where h' = ?h2, OF l_frame])
    from rp rte have h2c: "?h2 c = (h c)\<lparr>left := right (h cl)\<rparr>" by simp
    show ?thesis
      unfolding l' using h2c olr2 rl2 or2 rr2 vc cnl cnr disj sub cl by auto
  next
    case False
    with step have rpl: "rp \<in> refs h (Some cl) (Node ll lx lr)"
      and o2: "owns ?h2 (Some cl) l'"
      and s2: "refs ?h2 (Some cl) l' \<subseteq> refs h (Some cl) (Node ll lx lr)"
      by simp_all
    from rpl cnl have "rp \<noteq> c" by auto
    then have h2c: "?h2 c = h c" by simp
    show ?thesis
      using h2c o2 s2 or2 rr2 vc cnl cnr disj cl by auto
  qed
  moreover have "Node ll lx lr \<noteq> Null" by simp
  ultimately show ?case using walk vs rtc rpin rpnrt unfolding t' by blast
qed

lemma owns_None: "owns h None t \<longleftrightarrow> t = Null"
  by (cases t) simp_all

lemma refs_None: "refs h None t = {}"
  by (cases t) simp_all

lemma set_slot_relinked:
  "set_slot P n q (h, tmp) = (h', tmp') \<Longrightarrow> relinked h tmp h' tmp' P n q {}"
  by (cases P) (auto simp: set_slot_def relinked_def parent_left_def parent_right_def split: if_splits)

lemma relinked_mono: "relinked h tmp h' tmp' P n q A \<Longrightarrow> A \<subseteq> B \<Longrightarrow> relinked h tmp h' tmp' P n q B"
  by (auto simp: relinked_def)

lemma relinked_outside:
  "relinked h tmp h' tmp' P n q A \<Longrightarrow> \<forall>p. P = Parent p \<longrightarrow> p \<notin> B \<Longrightarrow> B \<inter> A = {} \<Longrightarrow> \<forall>a \<in> B. h' a = h a"
  by (auto simp: relinked_def)

lemma relink_unlink:
  assumes own: "owns h (Some n) (Node l x r)"
    and un: "unlink l x r = (nt, t')"
    and fuel: "size r < k"
    and out: "\<forall>p. P = Parent p \<longrightarrow> p \<notin> refs h (Some n) (Node l x r)"
    and slot: "parent_left h tmp P = Some n \<or> parent_right h tmp P = Some n"
  shows "\<exists>h' tmp' q. relink k h tmp P n = Some (Inr (h', tmp'))
       \<and> relinked h tmp h' tmp' P n q (refs h (Some n) (Node l x r))
       \<and> owns h' q t' \<and> refs h' q t' \<subseteq> refs h (Some n) (Node l x r)
       \<and> tree_rep h' (Some n) nt"
proof -
  let ?A = "refs h (Some n) (Node l x r)"
  let ?nl = "left (h n)" and ?nr = "right (h n)"
  from own have vn: "val (h n) = x" and ol: "owns h ?nl l" and or: "owns h ?nr r"
    and nnl: "n \<notin> refs h ?nl l" and nnr: "n \<notin> refs h ?nr r"
    and disj: "refs h ?nl l \<inter> refs h ?nr r = {}"
    by simp_all
  have A: "?A = {n} \<union> refs h ?nl l \<union> refs h ?nr r" by simp
  from ol have lnull: "?nl = None \<longleftrightarrow> l = Null" by (rule refs_Null_iff)
  from or have rnull: "?nr = None \<longleftrightarrow> r = Null" by (rule refs_Null_iff)
  have Pn: "P \<noteq> Parent n" using out by auto
  have by_slot: "\<exists>h' tmp'. set_slot P n q (h0, tmp) = (h', tmp')
       \<and> relinked h tmp h' tmp' P n q ?A
       \<and> owns h' q t' \<and> refs h' q t' \<subseteq> ?A
       \<and> tree_rep h' (Some n) nt"
    if h0: "\<forall>a. a \<notin> ?A \<longrightarrow> h0 a = h a"
      and o0: "owns h0 q t'" and r0: "refs h0 q t' \<subseteq> ?A" and n0: "tree_rep h0 (Some n) nt"
      and rn: "refs h0 (Some n) nt \<subseteq> ?A"
    for h0 q
  proof -
    obtain h' tmp' where ss: "set_slot P n q (h0, tmp) = (h', tmp')"
      by (cases "set_slot P n q (h0, tmp)")
    from set_slot_relinked[OF ss] have rel0: "relinked h0 tmp h' tmp' P n q {}" .
    have pl: "parent_left h0 tmp P = parent_left h tmp P" and pr: "parent_right h0 tmp P = parent_right h tmp P"
      using h0 out by (cases P; simp add: parent_left_def parent_right_def)+
    have rel: "relinked h tmp h' tmp' P n q ?A"
      using rel0 h0 out pl pr unfolding relinked_def by (cases P) auto
    have fr: "\<forall>a \<in> ?A. h' a = h0 a" using rel0 out by (auto simp: relinked_def)
    with r0 have "\<forall>a \<in> refs h0 q t'. h' a = h0 a" by blast
    from owns_frame[where h' = h', OF this] refs_frame[where h' = h', OF this] o0 r0
    have o': "owns h' q t'" "refs h' q t' \<subseteq> ?A" by simp_all
    from fr rn have "\<forall>a \<in> refs h0 (Some n) nt. h' a = h0 a" by blast
    from tree_rep_frame[where h' = h', OF this] n0 have "tree_rep h' (Some n) nt" by simp
    with ss rel o' show ?thesis by blast
  qed
  have rep_n: "tree_rep h (Some n) (Node l x r)" using own by (rule owns_tree_rep)
  consider (leaf) "l = Null" "r = Null"
    | (two) rl rx rr where "l \<noteq> Null" "r = Node rl rx rr"
    | (one) "l = Null \<and> r \<noteq> Null \<or> l \<noteq> Null \<and> r = Null"
    by (cases l; cases r) auto
  then show ?thesis
  proof cases
    case leaf
    with un have nt: "nt = Node Null x Null" and t': "t' = Null" by (simp_all add: unlink_def)
    from leaf lnull rnull have rl: "relink k h tmp P n = Some (Inr (set_slot P n None (h, tmp)))"
      by (simp add: relink_def)
    have "owns h None t'" using t' by simp
    moreover have "refs h None t' \<subseteq> ?A" by (simp add: refs_None)
    moreover have "tree_rep h (Some n) nt" using rep_n leaf nt by simp
    moreover have "refs h (Some n) nt \<subseteq> ?A" using leaf nt by simp
    ultimately show ?thesis using by_slot[of h None] rl by auto
  next
    case one
    with un have nt: "nt = Node l x r" and t': "t' = (if l \<noteq> Null then l else r)"
      by (auto simp: unlink_def)
    let ?q = "if ?nl \<noteq> None then ?nl else ?nr"
    from one lnull rnull have rl: "relink k h tmp P n = Some (Inr (set_slot P n ?q (h, tmp)))"
      by (auto simp: relink_def)
    have "owns h ?q t'" using t' ol or lnull by auto
    moreover have "refs h ?q t' \<subseteq> ?A" using t' lnull by auto
    moreover have "tree_rep h (Some n) nt" using rep_n nt by simp
    moreover have "refs h (Some n) nt \<subseteq> ?A" using nt by simp
    ultimately show ?thesis using by_slot[of h ?q] rl by auto
  next
    case two
    from or two obtain ra where ra: "?nr = Some ra" by (cases ?nr) simp_all
    from or two ra have vra: "val (h ra) = rx"
      and orl: "owns h (left (h ra)) rl" and orr: "owns h (right (h ra)) rr"
      and ranl: "ra \<notin> refs h (left (h ra)) rl" and ranr: "ra \<notin> refs h (right (h ra)) rr"
      and rdisj: "refs h (left (h ra)) rl \<inter> refs h (right (h ra)) rr = {}"
      by simp_all
    have R: "refs h ?nr r = {ra} \<union> refs h (left (h ra)) rl \<union> refs h (right (h ra)) rr"
      using two ra by simp
    from orl have rlnull: "left (h ra) = None \<longleftrightarrow> rl = Null" by (rule refs_Null_iff)
    have nra: "n \<noteq> ra" using nnr R by auto
    have ra_notin_l: "ra \<notin> refs h ?nl l" using disj R by auto
    show ?thesis
    proof (cases "rl = Null")
      case True
      with two un have nt: "nt = Node l x (Node l rx rr)" and t': "t' = Node l rx rr"
        by (auto simp: unlink_def)
      let ?h1 = "h(ra := (h ra)\<lparr>left := ?nl\<rparr>)"
      from two True lnull rnull ra rlnull
      have rl: "relink k h tmp P n = Some (Inr (set_slot P n (Some ra) (?h1, tmp)))"
        by (simp add: relink_def)
      have fl: "\<forall>a \<in> refs h ?nl l. ?h1 a = h a" using ra_notin_l by auto
      have frr: "\<forall>a \<in> refs h (right (h ra)) rr. ?h1 a = h a" using ranr by auto
      note l1 = owns_frame[where h' = ?h1, OF fl] refs_frame[where h' = ?h1, OF fl]
        tree_rep_frame[where h' = ?h1, OF fl]
      note r1 = owns_frame[where h' = ?h1, OF frr] refs_frame[where h' = ?h1, OF frr]
        tree_rep_frame[where h' = ?h1, OF frr]
      have sub: "refs h (right (h ra)) rr \<subseteq> refs h ?nr r" using R by auto
      have o1: "owns ?h1 (Some ra) (Node l rx rr)"
        using l1 r1 ol orr vra ra_notin_l ranr disj sub by auto
      have s1: "refs ?h1 (Some ra) (Node l rx rr) \<subseteq> ?A"
        using l1 r1 R by auto
      have hn: "?h1 n = h n" using nra by simp
      have t1: "tree_rep ?h1 (Some n) (Node l x (Node l rx rr))"
        using hn vn ra l1 r1 owns_tree_rep[OF ol] owns_tree_rep[OF orr] vra by simp
      have rn1: "refs ?h1 (Some n) (Node l x (Node l rx rr)) \<subseteq> ?A"
        using hn ra l1 r1 R by auto
      have "\<forall>a. a \<notin> ?A \<longrightarrow> ?h1 a = h a" using R by auto
      from by_slot[OF this o1[folded t'] s1[folded t'] t1[folded nt] rn1[folded nt]] rl
      show ?thesis by auto
    next
      case False
      obtain s r' where ul: "unlink_leftmost rl rx rr = (s, r')"
        by (cases "unlink_leftmost rl rx rr")
      with two False un have nt: "nt = Node l s r'" and t': "t' = Node l s r'"
        by (auto simp: unlink_def)
      have ora: "owns h (Some ra) (Node rl rx rr)" using or two ra by simp
      have "size rl < k" using fuel two by simp
      from walk_left_unlink[OF ora ul this, of n] False obtain rp rt where
        w: "walk_left k h n ra = Some (rp, rt)" and vs: "val (h rt) = s"
        and rt: "rt \<in> refs h (Some ra) (Node rl rx rr)"
        and rp: "rp \<in> refs h (Some ra) (Node rl rx rr)"
        and oA: "owns (h(rp := (h rp)\<lparr>left := right (h rt)\<rparr>)) (Some ra) r'"
        and sA: "refs (h(rp := (h rp)\<lparr>left := right (h rt)\<rparr>)) (Some ra) r'
                     \<subseteq> refs h (Some ra) (Node rl rx rr)"
        by blast
      let ?hA = "h(rp := (h rp)\<lparr>left := right (h rt)\<rparr>)"
      let ?h1 = "h(n := (h n)\<lparr>val := val (h rt)\<rparr>)"
      let ?h2 = "?h1(rp := (?h1 rp)\<lparr>left := right (?h1 rt)\<rparr>)"
      have Rr: "refs h (Some ra) (Node rl rx rr) = refs h ?nr r" using two ra by simp
      have nrp: "n \<noteq> rp" and nrt: "n \<noteq> rt" using rp rt nnr Rr by auto
      have h2: "?h2 = ?hA(n := (h n)\<lparr>val := s\<rparr>)"
        using nrp nrt vs by (auto simp: fun_upd_twist)
      have target: "(if parent_left h tmp P = Some n then parent_left h tmp P else parent_right h tmp P) = Some n"
        using slot by auto
      obtain la cl where some: "left (h n) = Some la" "left (h ra) = Some cl"
        using two False lnull rlnull by auto
      have rl: "relink k h tmp P n = Some (Inr (?h2, tmp))"
        unfolding relink_def using some ra w target by (simp add: Let_def del: fun_upd_apply)
      have rp_notin_l: "rp \<notin> refs h ?nl l" using rp Rr disj by auto
      have fl: "\<forall>a \<in> refs h ?nl l. ?h2 a = h a" using rp_notin_l nnl by auto
      note l2 = owns_frame[where h' = ?h2, OF fl] refs_frame[where h' = ?h2, OF fl]
      have n_notin: "n \<notin> refs ?hA (Some ra) r'" using sA Rr nnr by auto
      have fr: "\<forall>a \<in> refs ?hA (Some ra) r'. ?h2 a = ?hA a" unfolding h2 using n_notin by auto
      note r2 = owns_frame[where h' = ?h2, OF fr] refs_frame[where h' = ?h2, OF fr]
      have h2n: "?h2 n = (h n)\<lparr>val := s\<rparr>" unfolding h2 by simp
      have o2: "owns ?h2 (Some n) (Node l s r')"
        using h2n l2 r2 ol oA ra nnl n_notin sA Rr disj
        by (simp del: fun_upd_apply) blast
      have s2: "refs ?h2 (Some n) (Node l s r') \<subseteq> ?A"
        using h2n l2 r2 ra sA Rr by (simp del: fun_upd_apply) blast
      have rel: "relinked h tmp ?h2 tmp P n (Some n) ?A"
      proof -
        have "\<forall>a. a \<notin> ?A \<longrightarrow> ?h2 a = h a" using rp Rr by auto
        moreover have "\<forall>p. P = Parent p \<longrightarrow> ?h2 p = h p" using out rp Rr by auto
        ultimately show ?thesis
          using slot unfolding relinked_def parent_left_def parent_right_def
          by (cases P) (auto simp del: fun_upd_apply)
      qed
      from rl rel o2 s2 owns_tree_rep[OF o2] show ?thesis unfolding nt t' by blast
    qed
  qed
qed

lemma owns_replace_left:
  assumes own: "owns h (Some c) (Node l x r)"
    and v: "val (h' c) = val (h c)" and lq: "left (h' c) = q" and rq: "right (h' c) = right (h c)"
    and oq: "owns h' q l'" and sq: "refs h' q l' \<subseteq> refs h (left (h c)) l"
    and fr: "\<forall>a. a \<notin> refs h (left (h c)) l \<longrightarrow> a \<noteq> c \<longrightarrow> h' a = h a"
  shows "owns h' (Some c) (Node l' x r) \<and> refs h' (Some c) (Node l' x r) \<subseteq> refs h (Some c) (Node l x r)"
proof -
  from own have vc: "val (h c) = x" and or: "owns h (right (h c)) r"
    and cnl: "c \<notin> refs h (left (h c)) l" and cnr: "c \<notin> refs h (right (h c)) r"
    and disj: "refs h (left (h c)) l \<inter> refs h (right (h c)) r = {}"
    by simp_all
  have f: "\<forall>a \<in> refs h (right (h c)) r. h' a = h a" using fr disj cnr by blast
  from owns_frame[where h' = h', OF f] refs_frame[where h' = h', OF f] or
  have "owns h' (right (h c)) r" "refs h' (right (h c)) r = refs h (right (h c)) r" by simp_all
  with v lq rq oq sq vc cnl cnr disj show ?thesis by (simp del: fun_upd_apply) blast
qed

lemma owns_replace_right:
  assumes own: "owns h (Some c) (Node l x r)"
    and v: "val (h' c) = val (h c)" and lq: "left (h' c) = left (h c)" and rq: "right (h' c) = q"
    and oq: "owns h' q r'" and sq: "refs h' q r' \<subseteq> refs h (right (h c)) r"
    and fr: "\<forall>a. a \<notin> refs h (right (h c)) r \<longrightarrow> a \<noteq> c \<longrightarrow> h' a = h a"
  shows "owns h' (Some c) (Node l x r') \<and> refs h' (Some c) (Node l x r') \<subseteq> refs h (Some c) (Node l x r)"
proof -
  from own have vc: "val (h c) = x" and ol: "owns h (left (h c)) l"
    and cnl: "c \<notin> refs h (left (h c)) l" and cnr: "c \<notin> refs h (right (h c)) r"
    and disj: "refs h (left (h c)) l \<inter> refs h (right (h c)) r = {}"
    by simp_all
  have f: "\<forall>a \<in> refs h (left (h c)) l. h' a = h a" using fr disj cnl by blast
  from owns_frame[where h' = h', OF f] refs_frame[where h' = h', OF f] ol
  have "owns h' (left (h c)) l" "refs h' (left (h c)) l = refs h (left (h c)) l" by simp_all
  with v lq rq oq sq vc cnl cnr disj show ?thesis by (simp del: fun_upd_apply) blast
qed

lemma search_st_absent:
  "owns h cur t \<Longrightarrow> remove_loop v t = Inl e \<Longrightarrow> size t < ks
     \<Longrightarrow> search_st ks v h p0 cur = Some (Inl TypeError)"
proof (induction t arbitrary: cur ks p0)
  case Null
  then obtain k' where "ks = Suc k'" by (cases ks) auto
  with Null show ?case by simp
next
  case (Node l x r)
  then obtain k' where ks: "ks = Suc k'" by (cases ks) auto
  from Node.prems(1) obtain c where c: "cur = Some c" by (cases cur) simp_all
  from Node.prems(1) c have vc: "val (h c) = x" and ol: "owns h (left (h c)) l"
    and or: "owns h (right (h c)) r" by simp_all
  from Node.prems(2) have ne: "x \<noteq> v" by (auto split: if_splits)
  show ?case
  proof (cases "v < x")
    case True
    with Node.prems(2) ne have "remove_loop v l = Inl e" by (auto split: sum.splits)
    from Node.IH(1)[OF ol this, of k' "Some c"] Node.prems(3) ks
    have "search_st k' v h (Some c) (left (h c)) = Some (Inl TypeError)" by simp
    with ks c vc ne True show ?thesis by simp
  next
    case False
    with Node.prems(2) ne have "remove_loop v r = Inl e" by (auto split: sum.splits)
    from Node.IH(2)[OF or this, of k' "Some c"] Node.prems(3) ks
    have "search_st k' v h (Some c) (right (h c)) = Some (Inl TypeError)" by simp
    with ks c vc ne False show ?thesis by simp
  qed
qed

lemma remove_below:
  assumes "owns h (Some c) (Node l x r)" and "x \<noteq> v"
    and "remove_loop v (Node l x r) = Inr (nt, t')"
    and "size (Node l x r) < ks" and "size (Node l x r) < k"
  shows "\<exists>pn n h' tmp'. search_st ks v h p0 (Some c) = Some (Inr (Some pn, n))
        \<and> n \<in> refs h (Some c) (Node l x r) \<and> n \<noteq> c
        \<and> relink k h tmp (Parent pn) n = Some (Inr (h', tmp'))
        \<and> owns h' (Some c) t'
        \<and> refs h' (Some c) t' \<subseteq> refs h (Some c) (Node l x r)
        \<and> (\<forall>a. a \<notin> refs h (Some c) (Node l x r) \<longrightarrow> h' a = h a)
        \<and> tree_rep h' (Some n) nt"
  using assms
proof (induction "Node l x r" arbitrary: l x r c p0 ks t')
  case (Node l x r)
  let ?t = "Node l x r"
  from Node.prems(4) obtain k' where ks: "ks = Suc k'" by (cases ks) auto
  from Node.prems(1) have vc: "val (h c) = x" and ol: "owns h (left (h c)) l"
    and or: "owns h (right (h c)) r"
    and cnl: "c \<notin> refs h (left (h c)) l" and cnr: "c \<notin> refs h (right (h c)) r"
    and disj: "refs h (left (h c)) l \<inter> refs h (right (h c)) r = {}"
    by simp_all
  have Rt: "refs h (Some c) ?t = {c} \<union> refs h (left (h c)) l \<union> refs h (right (h c)) r" by simp
  note ne = \<open>x \<noteq> v\<close>
  show ?case
  proof (cases "v < x")
    case True
    with Node.prems(3) ne obtain l' where rl: "remove_loop v l = Inr (nt, l')" and t': "t' = Node l' x r"
      by (auto split: sum.splits)
    from rl obtain ll lx lr where l: "l = Node ll lx lr" by (cases l) simp_all
    with ol obtain cl where cl: "left (h c) = Some cl" by (cases "left (h c)") simp_all
    have step: "search_st ks v h p0 (Some c) = search_st k' v h (Some c) (Some cl)"
      using ks vc ne True cl by simp
    have ocl: "owns h (Some cl) (Node ll lx lr)" using ol l cl by simp
    have clin: "cl \<in> refs h (left (h c)) l" using l cl by simp
    have "\<exists>pn n h' tmp'. search_st k' v h (Some c) (Some cl) = Some (Inr (Some pn, n))
        \<and> n \<in> refs h (left (h c)) l
        \<and> relink k h tmp (Parent pn) n = Some (Inr (h', tmp'))
        \<and> val (h' c) = val (h c) \<and> right (h' c) = right (h c)
        \<and> owns h' (left (h' c)) l' \<and> refs h' (left (h' c)) l' \<subseteq> refs h (left (h c)) l
        \<and> (\<forall>a. a \<notin> refs h (left (h c)) l \<longrightarrow> a \<noteq> c \<longrightarrow> h' a = h a)
        \<and> tree_rep h' (Some n) nt"
    proof (cases "lx = v")
      case True
      from Node.prems(4) ks l obtain k'' where k': "k' = Suc k''" by (cases k') auto
      have found: "search_st k' v h (Some c) (Some cl) = Some (Inr (Some c, cl))"
        using k' ocl True by simp
      from rl l True have un: "unlink ll lx lr = (nt, l')" by simp
      have fuel: "size lr < k" using Node.prems(5) l by simp
      have out: "\<forall>p. Parent c = Parent p \<longrightarrow> p \<notin> refs h (Some cl) (Node ll lx lr)"
        using cnl l cl by simp
      have slot: "parent_left h tmp (Parent c) = Some cl \<or> parent_right h tmp (Parent c) = Some cl"
        using cl by (simp add: parent_left_def)
      from relink_unlink[OF ocl un fuel out slot] obtain h' tmp' q where
        rk: "relink k h tmp (Parent c) cl = Some (Inr (h', tmp'))"
        and rel: "relinked h tmp h' tmp' (Parent c) cl q (refs h (Some cl) (Node ll lx lr))"
        and oq: "owns h' q l'" and sq: "refs h' q l' \<subseteq> refs h (Some cl) (Node ll lx lr)"
        and tr: "tree_rep h' (Some cl) nt"
        by blast
      from rel cl have "left (h' c) = q" "right (h' c) = right (h c)" "val (h' c) = val (h c)"
        "\<forall>a. a \<notin> refs h (Some cl) (Node ll lx lr) \<longrightarrow> a \<noteq> c \<longrightarrow> h' a = h a"
        by (simp_all add: relinked_def parent_left_def parent_right_def)
      with found rk oq sq tr clin l cl show ?thesis by (auto simp del: refs.simps owns.simps)
    next
      case False
      have sz: "size (Node ll lx lr) < k'" "size (Node ll lx lr) < k"
        using Node.prems(4,5) ks l by simp_all
      from Node.hyps(1)[OF l ocl False rl[unfolded l] sz, of "Some c"] obtain pn n h' tmp' where
        s: "search_st k' v h (Some c) (Some cl) = Some (Inr (Some pn, n))"
        and nin: "n \<in> refs h (Some cl) (Node ll lx lr)"
        and rk: "relink k h tmp (Parent pn) n = Some (Inr (h', tmp'))"
        and o': "owns h' (Some cl) l'"
        and s': "refs h' (Some cl) l' \<subseteq> refs h (Some cl) (Node ll lx lr)"
        and fr: "\<forall>a. a \<notin> refs h (Some cl) (Node ll lx lr) \<longrightarrow> h' a = h a"
        and tr: "tree_rep h' (Some n) nt"
        by blast
      from fr cnl l cl have hc: "h' c = h c" by simp
      with s nin rk o' s' fr tr l cl show ?thesis by (auto simp del: refs.simps owns.simps)
    qed
    then obtain pn n h' tmp' where
      s: "search_st k' v h (Some c) (Some cl) = Some (Inr (Some pn, n))"
      and nin: "n \<in> refs h (left (h c)) l"
      and rk: "relink k h tmp (Parent pn) n = Some (Inr (h', tmp'))"
      and v': "val (h' c) = val (h c)" and r': "right (h' c) = right (h c)"
      and o': "owns h' (left (h' c)) l'" and s': "refs h' (left (h' c)) l' \<subseteq> refs h (left (h c)) l"
      and fr: "\<forall>a. a \<notin> refs h (left (h c)) l \<longrightarrow> a \<noteq> c \<longrightarrow> h' a = h a"
      and tr: "tree_rep h' (Some n) nt"
      by blast
    from owns_replace_left[OF Node.prems(1) v' refl r' o' s' fr]
    have "owns h' (Some c) t'" "refs h' (Some c) t' \<subseteq> refs h (Some c) ?t"
      unfolding t' by simp_all
    moreover have "n \<in> refs h (Some c) ?t" "n \<noteq> c" using nin cnl by auto
    moreover have "\<forall>a. a \<notin> refs h (Some c) ?t \<longrightarrow> h' a = h a" using fr by auto
    moreover from step s have "search_st ks v h p0 (Some c) = Some (Inr (Some pn, n))" by simp
    ultimately show ?thesis using rk tr by blast
  next
    case False
    with Node.prems(3) ne obtain r' where rr: "remove_loop v r = Inr (nt, r')" and t': "t' = Node l x r'"
      by (auto split: sum.splits)
    from rr obtain rl rx rrr where r: "r = Node rl rx rrr" by (cases r) simp_all
    with or obtain cr where cr: "right (h c) = Some cr" by (cases "right (h c)") simp_all
    have step: "search_st ks v h p0 (Some c) = search_st k' v h (Some c) (Some cr)"
      using ks vc ne False cr by simp
    have ocr: "owns h (Some cr) (Node rl rx rrr)" using or r cr by simp
    have crin: "cr \<in> refs h (right (h c)) r" using r cr by simp
    have lne: "left (h c) \<noteq> Some cr"
    proof
      assume e: "left (h c) = Some cr"
      with ol have "l \<noteq> Null" by (cases l) simp_all
      then obtain ll lx lr where "l = Node ll lx lr" by (cases l) simp_all
      with e have "cr \<in> refs h (left (h c)) l" by simp
      with crin disj show False by blast
    qed
    have "\<exists>pn n h' tmp'. search_st k' v h (Some c) (Some cr) = Some (Inr (Some pn, n))
        \<and> n \<in> refs h (right (h c)) r
        \<and> relink k h tmp (Parent pn) n = Some (Inr (h', tmp'))
        \<and> val (h' c) = val (h c) \<and> left (h' c) = left (h c)
        \<and> owns h' (right (h' c)) r' \<and> refs h' (right (h' c)) r' \<subseteq> refs h (right (h c)) r
        \<and> (\<forall>a. a \<notin> refs h (right (h c)) r \<longrightarrow> a \<noteq> c \<longrightarrow> h' a = h a)
        \<and> tree_rep h' (Some n) nt"
    proof (cases "rx = v")
      case True
      from Node.prems(4) ks r obtain k'' where k': "k' = Suc k''" by (cases k') auto
      have found: "search_st k' v h (Some c) (Some cr) = Some (Inr (Some c, cr))"
        using k' ocr True by simp
      from rr r True have un: "unlink rl rx rrr = (nt, r')" by simp
      have fuel: "size rrr < k" using Node.prems(5) r by simp
      have out: "\<forall>p. Parent c = Parent p \<longrightarrow> p \<notin> refs h (Some cr) (Node rl rx rrr)"
        using cnr r cr by simp
      have slot: "parent_left h tmp (Parent c) = Some cr \<or> parent_right h tmp (Parent c) = Some cr"
        using cr by (simp add: parent_right_def)
      from relink_unlink[OF ocr un fuel out slot] obtain h' tmp' q where
        rk: "relink k h tmp (Parent c) cr = Some (Inr (h', tmp'))"
        and rel: "relinked h tmp h' tmp' (Parent c) cr q (refs h (Some cr) (Node rl rx rrr))"
        and oq: "owns h' q r'" and sq: "refs h' q r' \<subseteq> refs h (Some cr) (Node rl rx rrr)"
        and tr: "tree_rep h' (Some cr) nt"
        by blast
      from rel cr lne have "right (h' c) = q" "left (h' c) = left (h c)" "val (h' c) = val (h c)"
        "\<forall>a. a \<notin> refs h (Some cr) (Node rl rx rrr) \<longrightarrow> a \<noteq> c \<longrightarrow> h' a = h a"
        by (simp_all add: relinked_def parent_left_def parent_right_def)
      with found rk oq sq tr crin r cr show ?thesis by (auto simp del: refs.simps owns.simps)
    next
      case False
      have sz: "size (Node rl rx rrr) < k'" "size (Node rl rx rrr) < k"
        using Node.prems(4,5) ks r by simp_all
      from Node.hyps(2)[OF r ocr False rr[unfolded r] sz, of "Some c"] obtain pn n h' tmp' where
        s: "search_st k' v h (Some c) (Some cr) = Some (Inr (Some pn, n))"
        and nin: "n \<in> refs h (Some cr) (Node rl rx rrr)"
        and rk: "relink k h tmp (Parent pn) n = Some (Inr (h', tmp'))"
        and o': "owns h' (Some cr) r'"
        and s': "refs h' (Some cr) r' \<subseteq> refs h (Some cr) (Node rl rx rrr)"
        and fr: "\<forall>a. a \<notin> refs h (Some cr) (Node rl rx rrr) \<longrightarrow> h' a = h a"
        and tr: "tree_rep h' (Some n) nt"
        by blast
      from fr cnr r cr have hc: "h' c = h c" by simp
      with s nin rk o' s' fr tr r cr show ?thesis by (auto simp del: refs.simps owns.simps)
    qed
    then obtain pn n h' tmp' where
      s: "search_st k' v h (Some c) (Some cr) = Some (Inr (Some pn, n))"
      and nin: "n \<in> refs h (right (h c)) r"
      and rk: "relink k h tmp (Parent pn) n = Some (Inr (h', tmp'))"
      and v': "val (h' c) = val (h c)" and l': "left (h' c) = left (h c)"
      and o': "owns h' (right (h' c)) r'" and s': "refs h' (right (h' c)) r' \<subseteq> refs h (right (h c)) r"
      and fr: "\<forall>a. a \<notin> refs h (right (h c)) r \<longrightarrow> a \<noteq> c \<longrightarrow> h' a = h a"
      and tr: "tree_rep h' (Some n) nt"
      by blast
    from owns_replace_right[OF Node.prems(1) v' l' refl o' s' fr]
    have "owns h' (Some c) t'" "refs h' (Some c) t' \<subseteq> refs h (Some c) ?t"
      unfolding t' by simp_all
    moreover have "n \<in> refs h (Some c) ?t" "n \<noteq> c" using nin cnr by auto
    moreover have "\<forall>a. a \<notin> refs h (Some c) ?t \<longrightarrow> h' a = h a" using fr by auto
    moreover from step s have "search_st ks v h p0 (Some c) = Some (Inr (Some pn, n))" by simp
    ultimately show ?thesis using rk tr by blast
  qed
qed

lemma remove_st_refines:
  assumes "owns (heap s) (root s) t" and "size t < k"
  shows "case remove v t of
           Inl e \<Rightarrow> remove_st k v s = Some (Inl e)
         | Inr (nt, t') \<Rightarrow>
             (\<exists>n s'. remove_st k v s = Some (Inr (Some n, s'))
                \<and> owns (heap s') (root s') t' \<and> tree_rep (heap s') (Some n) nt)"
proof (cases "remove_loop v t")
  case (Inl e)
  have "e = TypeError" by (cases e) simp
  with search_st_absent[OF assms(1) Inl assms(2), of None] Inl show ?thesis
    by (simp add: remove_def remove_st_def)
next
  case (Inr res)
  obtain nt t' where res: "res = (nt, t')" by (cases res)
  from Inr res obtain l x r where t: "t = Node l x r" by (cases t) simp_all
  with assms(1) obtain c where c: "root s = Some c" by (cases "root s") simp_all
  from assms(1) t c have oc: "owns (heap s) (Some c) (Node l x r)" by simp
  then have vc: "val (heap s c) = x" by simp
  from assms(2) obtain k' where k: "k = Suc k'" by (cases k) auto
  show ?thesis
  proof (cases "x = v")
    case True
    have found: "search_st k v (heap s) None (root s) = Some (Inr (None, c))"
      using k c vc True by simp
    from Inr res t True have un: "unlink l x r = (nt, t')" by simp
    have fuel: "size r < k" using assms(2) t by simp
    have slot: "parent_left (heap s) (root s, None) TempRoot = Some c
        \<or> parent_right (heap s) (root s, None) TempRoot = Some c"
      using c by (simp add: parent_left_def)
    from relink_unlink[OF oc un fuel _ slot] obtain h' tmp' q where
      rk: "relink k (heap s) (root s, None) TempRoot c = Some (Inr (h', tmp'))"
      and rel: "relinked (heap s) (root s, None) h' tmp' TempRoot c q (refs (heap s) (Some c) (Node l x r))"
      and oq: "owns h' q t'" and tr: "tree_rep h' (Some c) nt"
      by auto
    from rel c have "parent_left h' tmp' TempRoot = q"
      by (simp add: relinked_def parent_left_def)
    with found rk c oq tr Inr res show ?thesis
      by (simp add: remove_def remove_st_def)
  next
    case False
    from remove_below[OF oc False Inr[unfolded res t] assms(2)[unfolded t] assms(2)[unfolded t],
        of None "(root s, None)"]
    obtain pn n h' tmp' where
      s: "search_st k v (heap s) None (Some c) = Some (Inr (Some pn, n))"
      and nc: "n \<noteq> c"
      and rk: "relink k (heap s) (root s, None) (Parent pn) n = Some (Inr (h', tmp'))"
      and o': "owns h' (Some c) t'" and tr: "tree_rep h' (Some n) nt"
      by blast
    with c Inr res show ?thesis
      by (simp add: remove_def remove_st_def)
  qed
qed

section \<open>Facts about isBalanced\<close>




section \<open>The ordering invariant over sequences of calls\<close>

lemma insert_bst_dup:
  assumes "bst_dup t" and "insert v t = Some (Inr t')"
  shows "bst_dup t' \<and> v \<notin> tree_vals t \<and> insertRecursively v t = Inr t'"
proof (cases "t = Null")
  case True
  with assms show ?thesis by (auto simp: insert_def insertRecursively_def)
next
  case False
  with assms(2) have loop: "insert_loop v t = Some (Inr t')" by (simp add: insert_def)
  from insert_loop_returns[OF loop] have rec: "insertRecursively_at v t = Inr t'" by simp
  from insert_loop_present[OF loop] assms(1) have "v \<notin> tree_vals t" by simp
  with insertRecursively_at_bst_dup[OF assms(1) rec] rec False show ?thesis
    by (simp add: insertRecursively_def)
qed

lemma reachable_bst_dup: "reachable t \<Longrightarrow> bst_dup t"
proof (induction rule: reachable.induct)
  case empty
  show ?case by simp
next
  case (by_insert t v t')
  then show ?case using insert_bst_dup by blast
next
  case (by_insertRecursively t v t')
  then show ?case using insertRecursively_bst_dup by blast
next
  case (by_remove t v n t')
  then show ?case using remove_loop_bst_dup by (simp add: remove_def) blast
qed

lemma insertRecursively_distinct:
  assumes "distinct (inorder t)" and "v \<notin> tree_vals t" and "insertRecursively v t = Inr t'"
  shows "distinct (inorder t')"
proof -
  from insertRecursively_mset[OF assms(3)]
  have "mset (inorder t') = mset (v # inorder t)" by simp
  then have "distinct (inorder t') \<longleftrightarrow> distinct (v # inorder t)"
    by (rule mset_eq_imp_distinct_iff)
  with assms(1,2) show ?thesis
    by (simp add: set_inorder)
qed

lemma remove_distinct:
  assumes "distinct (inorder t)" and "remove v t = Inr (n, t')"
  shows "distinct (inorder t')"
proof -
  from assms(2) obtain xs ys where "inorder t = xs @ v # ys" "inorder t' = xs @ ys"
    using remove_loop_inorder[of v t n t'] by (auto simp: remove_def)
  with assms(1) show ?thesis by simp
qed

lemma reachable_distinct_bst: "reachable_distinct t \<Longrightarrow> bst_dup t \<and> distinct (inorder t)"
proof (induction rule: reachable_distinct.induct)
  case empty
  show ?case by simp
next
  case (by_insert t v t')
  from insert_bst_dup[OF _ by_insert(2)] by_insert.IH
  have "bst_dup t'" "v \<notin> tree_vals t" "insertRecursively v t = Inr t'" by simp_all
  with by_insert.IH insertRecursively_distinct[of t v t'] show ?case by simp
next
  case (by_insertRecursively t v t')
  with insertRecursively_bst_dup[of t v t'] insertRecursively_distinct[of t v t']
  show ?case by simp
next
  case (by_remove t v n t')
  with remove_loop_bst_dup[of t v n t'] remove_distinct[of t v n t']
  show ?case by (simp add: remove_def)
qed

text \<open>
  Claim C1, as stated, fails: two calls \<open>insertRecursively(5)\<close> on the empty tree give a
  root 5 whose right child is 5.
\<close>

theorem strict_ordering_counterexample:
  "reachable (Node Null (5::int) (Node Null 5 Null)) \<and> \<not> bst (Node Null (5::int) (Node Null 5 Null))"
proof -
  have "reachable (Node Null (5::int) Null)"
    by (rule reachable.by_insertRecursively[OF reachable.empty, of 5])
       (simp add: insertRecursively_def)
  then have "reachable (Node Null (5::int) (Node Null 5 Null))"
    by (rule reachable.by_insertRecursively[of _ 5]) (simp add: insertRecursively_def)
  then show ?thesis by simp
qed

text \<open>
  Claim C1, amended. For every tree obtained from the empty tree by calls of \<open>insert\<close>,
  \<open>insertRecursively\<close> and \<open>remove\<close> that return, at every node all values of the left
  subtree are strictly less than the node's value and all values of the right subtree are
  greater than or equal to it; they are strictly greater when no call of
  \<open>insertRecursively\<close> was given a value that the tree already held.
\<close>

theorem reachable_ordered:
  "(reachable t \<longrightarrow> bst_dup t) \<and> (reachable_distinct t \<longrightarrow> bst t)"
  using reachable_bst_dup[of t] reachable_distinct_bst[of t] by (simp add: bst_iff)

theorem reachable_ordered_witness:
  "reachable (Node Null (5::int) (Node Null 5 Null))
   \<and> bst_dup (Node Null (5::int) (Node Null 5 Null))
   \<and> reachable_distinct (Node (Node Null 3 Null) (5::int) Null)
   \<and> bst (Node (Node Null 3 Null) (5::int) Null)"
proof -
  have "reachable (Node Null (5::int) Null)"
    by (rule reachable.by_insertRecursively[OF reachable.empty, of 5])
       (simp add: insertRecursively_def)
  then have r: "reachable (Node Null (5::int) (Node Null 5 Null))"
    by (rule reachable.by_insertRecursively[of _ 5]) (simp add: insertRecursively_def)
  have "reachable_distinct (Node Null (5::int) Null)"
    by (rule reachable_distinct.by_insert[OF reachable_distinct.empty, of 5])
       (simp add: insert_def)
  then have d: "reachable_distinct (Node (Node Null 3 Null) (5::int) Null)"
    by (rule reachable_distinct.by_insertRecursively[of _ 3])
       (simp_all add: insertRecursively_def)
  from r d reachable_ordered[of "Node Null (5::int) (Node Null 5 Null)"]
    reachable_ordered[of "Node (Node Null 3 Null) (5::int) Null"]
  show ?thesis by blast
qed

section \<open>remove of a value that is not in the tree\<close>

text \<open>
  Claim C3 says that \<open>remove\<close> of an absent value returns a "not found" result and leaves
  the tree unchanged. In the source the search loop reaches \<open>null\<close>, its condition
  still holds, and its body reads \<open>nodeToRemove.val\<close>: for every tree and every value not
  in it the call throws a \<open>TypeError\<close>, the empty tree included; so do the statements run
  on every tree-shaped object graph that represents the tree.
\<close>

theorem remove_absent_throws:
  "v \<notin> tree_vals t \<Longrightarrow>
     remove v t = Inl TypeError
     \<and> (owns (heap s) (root s) t \<longrightarrow> size t < k \<longrightarrow> remove_st k v s = Some (Inl TypeError))"
proof -
  assume "v \<notin> tree_vals t"
  then have r: "remove v t = Inl TypeError"
    by (simp add: remove_def remove_absent)
  have "remove_st k v s = Some (Inl TypeError)" if "owns (heap s) (root s) t" "size t < k"
    using remove_st_refines[OF that, of v] r by simp
  with r show ?thesis by blast
qed

theorem remove_absent_throws_witness:
  "(4::int) \<notin> tree_vals (Node (Node Null 3 Null) 5 (Node (Node Null 7 Null) 8 Null))
   \<and> remove (4::int) (Node (Node Null 3 Null) 5 (Node (Node Null 7 Null) 8 Null)) = Inl TypeError
   \<and> owns (heap graph_5_3_8_7) (root graph_5_3_8_7)
        (Node (Node Null 3 Null) 5 (Node (Node Null 7 Null) 8 Null))
   \<and> size (Node (Node Null 3 Null) (5::int) (Node (Node Null 7 Null) 8 Null)) < 5
   \<and> remove_st 5 4 graph_5_3_8_7 = Some (Inl TypeError)
   \<and> (1::int) \<notin> tree_vals Null
   \<and> remove (1::int) Null = Inl TypeError"
proof -
  let ?t = "Node (Node Null 3 Null) (5::int) (Node (Node Null 7 Null) 8 Null)"
  have a: "(4::int) \<notin> tree_vals ?t" by simp
  have o: "owns (heap graph_5_3_8_7) (root graph_5_3_8_7) ?t"
    by (simp add: graph_5_3_8_7_def)
  have z: "size ?t < 5" by simp
  have b: "(1::int) \<notin> tree_vals Null" by simp
  from remove_absent_throws[OF a, of graph_5_3_8_7 5] o z
  have "remove 4 ?t = Inl TypeError" "remove_st 5 4 graph_5_3_8_7 = Some (Inl TypeError)"
    by blast+
  moreover from remove_absent_throws[OF b] have "remove (1::int) Null = Inl TypeError"
    by blast
  ultimately show ?thesis using a o z b by blast
qed

section \<open>Insertion of a value that the tree already holds\<close>

text \<open>
  Claim C4, as stated, fails on the tree with the single value 5: \<open>insert(5)\<close> does not
  return, and \<open>insertRecursively(5)\<close> adds a second node.
\<close>

theorem duplicate_insert_counterexample:
  "insert (5::int) (Node Null 5 Null) = None
   \<and> insertRecursively (5::int) (Node Null 5 Null) = Inr (Node Null 5 (Node Null 5 Null))"
proof -
  have "insert_loop (5::int) (Node Null 5 Null) = None"
  proof (cases "insert_loop (5::int) (Node Null 5 Null)")
    case None
    then show ?thesis .
  next
    case (Some res)
    from insert_loop_present[OF this] show ?thesis by simp
  qed
  then show ?thesis by (simp add: insert_def insertRecursively_def)
qed

text \<open>
  Claim C4, amended. For every non-empty tree and every value \<open>v\<close> already present in
  it, \<open>insertRecursively(v)\<close> terminates and returns the tree with one more node holding
  \<open>v\<close>: the tree changes, and its in-order sequence gains one occurrence of \<open>v\<close>.
\<close>

theorem insertRecursively_present_adds:
  "t \<noteq> Null \<Longrightarrow> v \<in> tree_vals t \<Longrightarrow>
     \<exists>t'. insertRecursively v t = Inr t' \<and> t' \<noteq> t
       \<and> mset (dfsInOrder t') = mset (dfsInOrder t) + {#v#}"
proof -
  obtain t' where t': "insertRecursively v t = Inr t'"
    using insertRecursively_returns[of v t] by blast
  from insertRecursively_mset[OF t']
  have m: "mset (inorder t') = mset (inorder t) + {#v#}" .
  then have "t' \<noteq> t" by auto
  with t' m show ?thesis by (simp add: dfsInOrder_inorder)
qed

theorem insertRecursively_present_adds_witness:
  "Node Null (5::int) Null \<noteq> Null \<and> (5::int) \<in> tree_vals (Node Null 5 Null)
   \<and> (\<exists>t'. insertRecursively (5::int) (Node Null 5 Null) = Inr t' \<and> t' \<noteq> Node Null 5 Null
         \<and> mset (dfsInOrder t') = mset (dfsInOrder (Node Null (5::int) Null)) + {#5#})"
proof -
  have a: "Node Null (5::int) Null \<noteq> Null" by simp
  have b: "(5::int) \<in> tree_vals (Node Null 5 Null)" by simp
  from a b insertRecursively_present_adds[OF a b] show ?thesis by blast
qed

section \<open>The two insertion methods on a sequence of values\<close>

lemma insert_fresh:
  "v \<notin> tree_vals t \<Longrightarrow> insert v t = Some (insertRecursively v t)"
  by (simp add: insert_def insertRecursively_def insert_loop_fresh)

lemma inserts_agree:
  "distinct vs \<Longrightarrow> set vs \<inter> tree_vals t0 = {} \<Longrightarrow>
     \<exists>t. inserts vs t0 = Some (Inr t) \<and> insertsRecursively vs t0 = Inr t"
proof (induction vs arbitrary: t0)
  case Nil
  show ?case by simp
next
  case (Cons v vs)
  obtain t1 where t1: "insertRecursively v t0 = Inr t1"
    using insertRecursively_returns[of v t0] by blast
  from Cons.prems have "v \<notin> tree_vals t0" by simp
  from insert_fresh[OF this] t1 have i1: "insert v t0 = Some (Inr t1)" by simp
  from insertRecursively_vals[OF t1] Cons.prems have "set vs \<inter> tree_vals t1 = {}" by auto
  with Cons.IH[of t1] Cons.prems(1)
  obtain t where "inserts vs t1 = Some (Inr t)" "insertsRecursively vs t1 = Inr t" by auto
  with t1 i1 show ?case by simp
qed

lemma insert_present:
  "bst_dup t \<Longrightarrow> v \<in> tree_vals t \<Longrightarrow> insert v t = None"
proof -
  assume b: "bst_dup t" and v: "v \<in> tree_vals t"
  from v have "t \<noteq> Null" by auto
  moreover from present_on_path[OF b v] have "insert_loop v t = None"
    by (simp add: insert_loop_eq)
  ultimately show ?thesis by (simp add: insert_def)
qed

lemma insertsRecursively_returns: "\<exists>t. insertsRecursively vs t0 = Inr t"
proof (induction vs arbitrary: t0)
  case Nil
  show ?case by simp
next
  case (Cons v vs)
  obtain t1 where t1: "insertRecursively v t0 = Inr t1"
    using insertRecursively_returns[of v t0] by blast
  with Cons.IH[of t1] show ?case by simp
qed

lemma inserts_repeat:
  "bst_dup t0 \<Longrightarrow> \<not> (distinct vs \<and> set vs \<inter> tree_vals t0 = {}) \<Longrightarrow> inserts vs t0 = None"
proof (induction vs arbitrary: t0)
  case Nil
  then show ?case by simp
next
  case (Cons v vs)
  show ?case
  proof (cases "v \<in> tree_vals t0")
    case True
    from insert_present[OF Cons.prems(1) True] show ?thesis by simp
  next
    case False
    obtain t1 where t1: "insertRecursively v t0 = Inr t1"
      using insertRecursively_returns[of v t0] by blast
    from insert_fresh[OF False] t1 have i1: "insert v t0 = Some (Inr t1)" by simp
    from insertRecursively_bst_dup[OF Cons.prems(1) t1] have b1: "bst_dup t1" .
    from insertRecursively_vals[OF t1] have vals: "tree_vals t1 = tree_vals t0 \<union> {v}" .
    from Cons.prems(2) False vals have "\<not> (distinct vs \<and> set vs \<inter> tree_vals t1 = {})"
      by auto
    from Cons.IH[OF b1 this] i1 show ?thesis by simp
  qed
qed

text \<open>
  Claim C5 says that, for any finite sequence of input values, applying \<open>insert\<close> for each
  value to an empty tree and applying \<open>insertRecursively\<close> for each value to an empty tree
  produce structurally identical trees. The code does not do this on a sequence in which a
  value repeats, such as 5, 5. The loop of \<open>insert\<close> tests \<open>val < current.val\<close> and then
  \<open>val > current.val\<close> and has no branch for an equal value, so at a node holding the value
  it neither advances nor returns: the call never returns, although the method is documented
  to return the tree after insertion. \<open>insertRecursively\<close> sends an equal value to the right
  and always returns. The theorem states what the code does on every sequence:
  \<open>insertRecursively\<close> applied for each value always returns a tree; where no value repeats,
  \<open>insert\<close> applied for each value returns that same tree; where some value repeats,
  \<open>insert\<close> applied for each value does not return.
\<close>

theorem insert_variants_diverge:
  "(\<exists>t. insertsRecursively vs Null = Inr t)
   \<and> (distinct vs \<longrightarrow> inserts vs Null = Some (insertsRecursively vs Null))
   \<and> (\<not> distinct vs \<longrightarrow> inserts vs Null = None)"
proof -
  have "\<not> distinct vs \<Longrightarrow> inserts vs Null = None"
    using inserts_repeat[of Null vs] by simp
  moreover have "distinct vs \<Longrightarrow> inserts vs Null = Some (insertsRecursively vs Null)"
    using inserts_agree[of vs Null] by auto
  ultimately show ?thesis using insertsRecursively_returns[of vs Null] by blast
qed

theorem insert_variants_diverge_witness:
  "\<not> distinct [5, 5 :: int]
   \<and> inserts [5, 5 :: int] Null = None
   \<and> insertsRecursively [5, 5 :: int] Null = Inr (Node Null 5 (Node Null 5 Null))
   \<and> distinct [5, 3, 8 :: int]
   \<and> inserts [5, 3, 8 :: int] Null = Some (Inr (Node (Node Null 3 Null) 5 (Node Null 8 Null)))"
  using insert_variants_diverge[of "[5, 5 :: int]"] insert_variants_diverge[of "[5, 3, 8 :: int]"]
  by (simp add: insertRecursively_def)

section \<open>Operations on the empty tree\<close>

text \<open>
  Claim C6 says that on the empty tree \<open>find\<close> returns an absent result, the four
  depth-first traversals return the empty sequence, and \<open>bfs\<close> returns an empty sequence
  or a defined error and never fails on a null dereference. The first five hold; \<open>bfs\<close>
  dequeues the \<open>null\<close> root and reads \<open>node.val\<close>, which throws a \<open>TypeError\<close>.
\<close>

theorem empty_tree_operations:
  "find v Null = None
   \<and> dfsPreOrder Null = []
   \<and> dfsInOrder Null = []
   \<and> dfsPostOrder Null = []
   \<and> dfsInOrderIterative Null = []
   \<and> bfs Null = Inl TypeError"
proof -
  have "find v Null = None" by (simp add: find_def)
  moreover have "dfsPreOrder Null = []" by (simp add: dfsPreOrder_def)
  moreover have "dfsInOrder Null = []" by (simp add: dfsInOrder_def)
  moreover have "dfsPostOrder Null = []" by (simp add: dfsPostOrder_def)
  moreover have "dfsInOrderIterative Null = []"
    by (simp add: dfsInOrderIterative_def iter_loop.simps)
  moreover have "bfs Null = Inl TypeError" by (simp add: bfs_def)
  ultimately show ?thesis by blast
qed

section \<open>Sortedness of the in-order traversal\<close>

text \<open>
  Claim C7. For every tree satisfying the ordering invariant, \<open>dfsInOrder()\<close> yields the
  values in non-decreasing order; inserting 5, 3, 8, 1, 4, 7, 9 into an empty tree and
  calling \<open>dfsInOrder()\<close> yields 1, 3, 4, 5, 7, 8, 9.
\<close>

theorem dfsInOrder_sorted:
  "(bst t \<longrightarrow> sorted (dfsInOrder t))
   \<and> (\<exists>t'. inserts [5, 3, 8, 1, 4, 7, 9 :: int] Null = Some (Inr t')
          \<and> dfsInOrder t' = [1, 3, 4, 5, 7, 8, 9])"
proof
  show "bst t \<longrightarrow> sorted (dfsInOrder t)"
    by (simp add: dfsInOrder_inorder bst_dup_sorted bst_imp_bst_dup)
next
  have "inserts [5, 3, 8, 1, 4, 7, 9 :: int] Null =
      Some (Inr (Node (Node (Node Null 1 Null) 3 (Node Null 4 Null)) 5
                      (Node (Node Null 7 Null) 8 (Node Null 9 Null))))"
    by (simp add: insert_def insert_loop.simps)
  moreover have "dfsInOrder (Node (Node (Node Null 1 Null) 3 (Node Null 4 Null)) (5::int)
                      (Node (Node Null 7 Null) 8 (Node Null 9 Null))) = [1, 3, 4, 5, 7, 8, 9]"
    by (simp add: dfsInOrder_def)
  ultimately show "\<exists>t'. inserts [5, 3, 8, 1, 4, 7, 9 :: int] Null = Some (Inr t')
          \<and> dfsInOrder t' = [1, 3, 4, 5, 7, 8, 9]"
    by blast
qed

theorem dfsInOrder_sorted_witness:
  "bst (Node (Node Null 3 Null) (5::int) (Node (Node Null 7 Null) 8 Null))
   \<and> sorted (dfsInOrder (Node (Node Null 3 Null) (5::int) (Node (Node Null 7 Null) 8 Null)))"
proof -
  have b: "bst (Node (Node Null 3 Null) (5::int) (Node (Node Null 7 Null) 8 Null))"
    by simp
  from dfsInOrder_sorted[of "Node (Node Null 3 Null) (5::int) (Node (Node Null 7 Null) 8 Null)"]
  have "bst (Node (Node Null 3 Null) (5::int) (Node (Node Null 7 Null) 8 Null))
      \<longrightarrow> sorted (dfsInOrder (Node (Node Null 3 Null) (5::int) (Node (Node Null 7 Null) 8 Null)))"
    by (rule conjunct1)
  with b show ?thesis by blast
qed

section \<open>The balance check\<close>



section \<open>The node returned by remove\<close>

text \<open>
  Claim C8 says that \<open>remove(value)\<close> returns the removed node: a node holding the
  requested value that is no longer reachable from the root. On the tree built by
  inserting 5, 3, 8, 7 the call \<open>remove(5)\<close> takes the two-children branch whose right
  child has a left child: the value 7 of the leftmost node is copied into
  \<open>nodeToRemove\<close>, the leftmost node is unlinked, and \<open>nodeToRemove\<close> is returned. The
  returned object is still the root of the tree and holds 7.
\<close>

theorem remove_returns_node_in_tree:
  "inserts [5, 3, 8, 7 :: int] Null = Some (Inr (Node (Node Null 3 Null) 5 (Node (Node Null 7 Null) 8 Null)))
   \<and> tree_rep (heap graph_5_3_8_7) (root graph_5_3_8_7)
        (Node (Node Null 3 Null) 5 (Node (Node Null 7 Null) 8 Null))
   \<and> (\<exists>s'. remove_st 4 5 graph_5_3_8_7 = Some (Inr (Some 0, s'))
          \<and> root s' = Some 0
          \<and> val (heap s' 0) = 7
          \<and> tree_rep (heap s') (root s') (Node (Node Null 3 Null) 7 (Node Null 8 Null)))
   \<and> remove 5 (Node (Node Null 3 Null) (5::int) (Node (Node Null 7 Null) 8 Null))
        = Inr (Node (Node Null 3 Null) 7 (Node Null 8 Null),
               Node (Node Null 3 Null) 7 (Node Null 8 Null))"
proof -
  have built: "inserts [5, 3, 8, 7 :: int] Null =
      Some (Inr (Node (Node Null 3 Null) 5 (Node (Node Null 7 Null) 8 Null)))"
    by (simp add: insert_def insert_loop.simps)
  have rep: "tree_rep (heap graph_5_3_8_7) (root graph_5_3_8_7)
      (Node (Node Null 3 Null) 5 (Node (Node Null 7 Null) 8 Null))"
    by (simp add: graph_5_3_8_7_def)
  have run: "remove_st 4 5 graph_5_3_8_7 =
      Some (Inr (Some 0,
        \<lparr>heap = (heap graph_5_3_8_7)
           (0 := \<lparr>val = 7, left = Some 1, right = Some 2\<rparr>,
            2 := \<lparr>val = 8, left = None, right = None\<rparr>),
         root = Some 0\<rparr>))"
    by (simp add: remove_st_def graph_5_3_8_7_def relink_def parent_left_def parent_right_def
          numeral_nat)
  have after: "\<exists>s'. remove_st 4 5 graph_5_3_8_7 = Some (Inr (Some 0, s'))
      \<and> root s' = Some 0 \<and> val (heap s' 0) = 7
      \<and> tree_rep (heap s') (root s') (Node (Node Null 3 Null) 7 (Node Null 8 Null))"
    unfolding run by (simp add: graph_5_3_8_7_def)
  have abstract: "remove 5 (Node (Node Null 3 Null) (5::int) (Node (Node Null 7 Null) 8 Null))
      = Inr (Node (Node Null 3 Null) 7 (Node Null 8 Null),
             Node (Node Null 3 Null) 7 (Node Null 8 Null))"
    by (simp add: remove_def unlink_def)
  from built rep after abstract show ?thesis by blast
qed

section \<open>The read-only methods on the object graph compute what they compute on trees\<close>

text \<open>
  On an object graph that represents a tree, and with a bound on the iterations above
  twice the number of nodes, each read-only method gives the result of its counterpart
  of the tree model.
\<close>

lemma tree_rep_Null_iff: "tree_rep h p t \<Longrightarrow> (p = None) = (t = Null)"
  by (cases t) (auto split: option.splits)

lemma find_loop_st_refines:
  "tree_rep (heap s) cur t \<Longrightarrow> size t < k
     \<Longrightarrow> \<exists>r. find_loop_st k v cur s = (Some (Inr r), s) \<and> node_rep (heap s) r (find_loop v t)"
proof (induction t arbitrary: cur k)
  case Null
  then obtain k' where "k = Suc k'" by (cases k) auto
  with Null show ?case by (simp add: node_rep_def)
next
  case (Node l x r)
  then obtain k' where k: "k = Suc k'" by (cases k) auto
  from Node.prems(1) obtain a where a: "cur = Some a" "val (heap s a) = x"
    "tree_rep (heap s) (left (heap s a)) l" "tree_rep (heap s) (right (heap s a)) r"
    by (auto split: option.splits)
  from Node.IH(1)[OF a(3), of k'] Node.IH(2)[OF a(4), of k'] Node.prems k a
  show ?case by (auto simp: node_rep_def)
qed

lemma find_st_refines:
  assumes "tree_rep (heap s) (root s) t" and "size t < k"
  shows "\<exists>r. find_st k v s = (Some (Inr r), s) \<and> node_rep (heap s) r (find v t)"
proof (cases t)
  case Null
  with assms have "root s = None" by simp
  with find_loop_st_refines[OF assms, of v] Null show ?thesis
    by (simp add: find_st_def find_def)
next
  case (Node l x r)
  with assms(1) obtain a where a: "root s = Some a" "val (heap s a) = x"
    by (auto split: option.splits)
  show ?thesis
  proof (cases "v = x")
    case True
    with a Node assms(1) show ?thesis by (simp add: find_st_def find_def node_rep_def)
  next
    case False
    with find_loop_st_refines[OF assms, of v] a Node show ?thesis
      by (simp add: find_st_def find_def)
  qed
qed

lemma findRecursively_st_refines:
  "tree_rep (heap s) cur t \<Longrightarrow> t \<noteq> Null \<Longrightarrow> root s \<noteq> None \<Longrightarrow> size t < k
     \<Longrightarrow> \<exists>r res. findRecursively_st k v cur s = (Some (Inr r), s)
           \<and> findRecursively_at v t = Inr res \<and> node_rep (heap s) r res"
proof (induction t arbitrary: cur k)
  case Null
  then show ?case by simp
next
  case (Node l x r)
  then obtain k' where k: "k = Suc k'" by (cases k) auto
  from Node.prems(1) obtain a where a: "cur = Some a" "val (heap s a) = x"
    "tree_rep (heap s) (left (heap s a)) l" "tree_rep (heap s) (right (heap s a)) r"
    by (auto split: option.splits)
  note ln = tree_rep_Null_iff[OF a(3)] and rn = tree_rep_Null_iff[OF a(4)]
  from Node.prems(3) obtain ro where ro: "root s = Some ro" by auto
  consider (lt) "v < x" | (gt) "\<not> v < x" "x < v" | (eq) "\<not> v < x" "\<not> x < v" by blast
  then show ?case
  proof cases
    case lt
    show ?thesis
    proof (cases "l = Null")
      case True
      with lt ln k a ro show ?thesis by (simp add: node_rep_def)
    next
      case False
      from Node.IH(1)[OF a(3) False Node.prems(3), of k'] Node.prems(4) k
      obtain r' res where "findRecursively_st k' v (left (heap s a)) s = (Some (Inr r'), s)"
        "findRecursively_at v l = Inr res" "node_rep (heap s) r' res" by auto
      moreover from ln False obtain la where "left (heap s a) = Some la" by auto
      ultimately show ?thesis using lt k a ro False by simp
    qed
  next
    case gt
    show ?thesis
    proof (cases "r = Null")
      case True
      with gt rn k a ro show ?thesis by (simp add: node_rep_def)
    next
      case False
      from Node.IH(2)[OF a(4) False Node.prems(3), of k'] Node.prems(4) k
      obtain r' res where "findRecursively_st k' v (right (heap s a)) s = (Some (Inr r'), s)"
        "findRecursively_at v r = Inr res" "node_rep (heap s) r' res" by auto
      moreover from rn False obtain ra where "right (heap s a) = Some ra" by auto
      ultimately show ?thesis using gt k a ro False by simp
    qed
  next
    case eq
    with k a Node.prems(1) ro show ?thesis by (simp add: node_rep_def)
  qed
qed

lemma traverse_pre_st_refines:
  "tree_rep (heap s) p t \<Longrightarrow> size t < k
     \<Longrightarrow> traverse_pre_st k p data s = (Some (traverse_pre t data), s)"
proof (induction t arbitrary: p k data)
  case Null
  then obtain k' where "k = Suc k'" by (cases k) auto
  with Null show ?case by simp
next
  case (Node l x r)
  then obtain k' where k: "k = Suc k'" by (cases k) auto
  from Node.prems(1) obtain a where a: "p = Some a" "val (heap s a) = x"
    "tree_rep (heap s) (left (heap s a)) l" "tree_rep (heap s) (right (heap s a)) r"
    by (auto split: option.splits)
  from Node.IH(1)[OF a(3), of k'] Node.IH(2)[OF a(4), of k'] Node.prems(2) k a
  show ?case by simp
qed

lemma traverse_in_st_refines:
  "tree_rep (heap s) p t \<Longrightarrow> size t < k
     \<Longrightarrow> traverse_in_st k p data s = (Some (traverse_in t data), s)"
proof (induction t arbitrary: p k data)
  case Null
  then obtain k' where "k = Suc k'" by (cases k) auto
  with Null show ?case by simp
next
  case (Node l x r)
  then obtain k' where k: "k = Suc k'" by (cases k) auto
  from Node.prems(1) obtain a where a: "p = Some a" "val (heap s a) = x"
    "tree_rep (heap s) (left (heap s a)) l" "tree_rep (heap s) (right (heap s a)) r"
    by (auto split: option.splits)
  from Node.IH(1)[OF a(3), of k'] Node.IH(2)[OF a(4), of k'] Node.prems(2) k a
  show ?case by simp
qed

lemma traverse_post_st_refines:
  "tree_rep (heap s) p t \<Longrightarrow> size t < k
     \<Longrightarrow> traverse_post_st k p data s = (Some (traverse_post t data), s)"
proof (induction t arbitrary: p k data)
  case Null
  then obtain k' where "k = Suc k'" by (cases k) auto
  with Null show ?case by simp
next
  case (Node l x r)
  then obtain k' where k: "k = Suc k'" by (cases k) auto
  from Node.prems(1) obtain a where a: "p = Some a" "val (heap s a) = x"
    "tree_rep (heap s) (left (heap s a)) l" "tree_rep (heap s) (right (heap s a)) r"
    by (auto split: option.splits)
  from Node.IH(1)[OF a(3), of k'] Node.IH(2)[OF a(4), of k'] Node.prems(2) k a
  show ?case by simp
qed

lemma bfs_loop_st_refines:
  "list_all2 (tree_rep (heap s)) queue ts \<Longrightarrow> sum_list (map size ts) < k
     \<Longrightarrow> bfs_loop_st k queue data s = (Some (bfs_loop ts data), s)"
proof (induction ts data arbitrary: queue k rule: bfs_loop.induct)
  case (1 data)
  then obtain k' where "k = Suc k'" by (cases k) auto
  with 1 show ?case by simp
next
  case (2 ts data)
  then obtain k' where "k = Suc k'" by (cases k) auto
  with 2 show ?case by (auto simp: list_all2_Cons2)
next
  case (3 l x r ts data)
  then obtain k' where k: "k = Suc k'" by (cases k) auto
  from "3.prems"(1) obtain a q where q: "queue = Some a # q" "val (heap s a) = x"
    "tree_rep (heap s) (left (heap s a)) l" "tree_rep (heap s) (right (heap s a)) r"
    "list_all2 (tree_rep (heap s)) q ts"
    by (auto simp: list_all2_Cons2 split: option.splits)
  note ln = tree_rep_Null_iff[OF q(3)] and rn = tree_rep_Null_iff[OF q(4)]
  let ?q' = "q @ (if left (heap s a) \<noteq> None then [left (heap s a)] else [])
               @ (if right (heap s a) \<noteq> None then [right (heap s a)] else [])"
  let ?ts' = "ts @ (if l \<noteq> Null then [l] else []) @ (if r \<noteq> Null then [r] else [])"
  have "list_all2 (tree_rep (heap s)) ?q' ?ts'"
    using q(3,4,5) ln rn by (auto intro!: list_all2_appendI)
  moreover have "sum_list (map size ?ts') < k'" using "3.prems"(2) k by auto
  ultimately have "bfs_loop_st k' ?q' (data @ [x]) s = (Some (bfs_loop ?ts' (data @ [x])), s)"
    by (rule "3.IH")
  with k q show ?case by simp
qed

lemma push_left_st_refines:
  "tree_rep (heap s) cur t \<Longrightarrow> list_all2 (\<lambda>a. tree_rep (heap s) (Some a)) stack ts
     \<Longrightarrow> size t < k
     \<Longrightarrow> \<exists>stack'. push_left_st k cur stack s = (Some stack', s)
           \<and> list_all2 (\<lambda>a. tree_rep (heap s) (Some a)) stack' (push_left t ts)"
proof (induction t arbitrary: cur stack ts k)
  case Null
  then obtain k' where "k = Suc k'" by (cases k) auto
  with Null show ?case by simp
next
  case (Node l x r)
  then obtain k' where k: "k = Suc k'" by (cases k) auto
  from Node.prems(1) obtain a where a: "cur = Some a" "tree_rep (heap s) (left (heap s a)) l"
    by (auto split: option.splits)
  have "list_all2 (\<lambda>a. tree_rep (heap s) (Some a)) (a # stack) (Node l x r # ts)"
    using Node.prems(1,2) a by simp
  from Node.IH(1)[OF a(2) this, of k'] Node.prems(3) k a show ?case by simp
qed

lemma iter_loop_st_refines:
  "tree_rep (heap s) cur t \<Longrightarrow> list_all2 (\<lambda>a. tree_rep (heap s) (Some a)) stack ts
     \<Longrightarrow> size t + sum_list (map pending ts) + 2 \<le> k
     \<Longrightarrow> iter_loop_st k stack cur dfs s = (Some (iter_loop ts t dfs), s)"
proof (induction ts t dfs arbitrary: stack cur k rule: iter_loop.induct)
  case (1 ts t dfs)
  from "1.prems"(3) obtain k' where k: "k = Suc k'" by (cases k) auto
  note tn = tree_rep_Null_iff[OF "1.prems"(1)]
  have sn: "stack = [] \<longleftrightarrow> ts = []" using "1.prems"(2) by (cases stack; cases ts) auto
  show ?case
  proof (cases "ts \<noteq> [] \<or> t \<noteq> Null")
    case False
    with k tn sn show ?thesis by (simp add: iter_loop.simps[of "[]" Null dfs])
  next
    case busy: True
    have "size t < k'" using "1.prems"(3) k by simp
    from push_left_st_refines[OF "1.prems"(1,2) this] obtain stack' where
      p: "push_left_st k' cur stack s = (Some stack', s)"
      and rel: "list_all2 (\<lambda>a. tree_rep (heap s) (Some a)) stack' (push_left t ts)"
      by blast
    note pp = pending_push_left[of t ts]
    show ?thesis
    proof (cases "push_left t ts")
      case Nil
      with pp have z: "size t = 0" "sum_list (map pending ts) = 0" by simp_all
      from z(1) have "t = Null" by (cases t) simp_all
      moreover from z(2) have "ts = []" by (cases ts) (simp_all add: pending_pos)
      ultimately show ?thesis using busy by simp
    next
      case (Cons top ts')
      with rel obtain a stack'' where st: "stack' = a # stack''"
        and ta: "tree_rep (heap s) (Some a) top"
        and rel': "list_all2 (\<lambda>a. tree_rep (heap s) (Some a)) stack'' ts'"
        by (auto simp: list_all2_Cons2)
      from ta obtain l x r where top: "top = Node l x r" and vx: "val (heap s a) = x"
        and tr: "tree_rep (heap s) (right (heap s a)) r"
        by (cases top) auto
      from Cons top pp have m: "size r + sum_list (map pending ts') + 1 = size t + sum_list (map pending ts)"
        by simp
      have "iter_loop_st k' stack'' (right (heap s a)) (dfs @ [x]) s
          = (Some (iter_loop ts' r (dfs @ [x])), s)"
        by (rule "1.IH"(3)[OF busy Cons top tr rel']) (use "1.prems"(3) k m in simp)
      with k busy tn sn p st Cons top vx show ?thesis
        by (simp add: iter_loop.simps[of ts t dfs])
    qed
  qed
qed

lemma minDepth_st_refines:
  "tree_rep (heap s) p t \<Longrightarrow> size t < k \<Longrightarrow> minDepth_st k p s = (Some (minDepth t), s)"
proof (induction t arbitrary: p k)
  case Null
  then obtain k' where "k = Suc k'" by (cases k) auto
  with Null show ?case by simp
next
  case (Node l x r)
  then obtain k' where k: "k = Suc k'" by (cases k) auto
  from Node.prems(1) obtain a where a: "p = Some a"
    "tree_rep (heap s) (left (heap s a)) l" "tree_rep (heap s) (right (heap s a)) r"
    by (auto split: option.splits)
  from Node.IH(1)[OF a(2), of k'] Node.IH(2)[OF a(3), of k'] Node.prems(2) k a
  show ?case by simp
qed

lemma maxDepth_st_refines:
  "tree_rep (heap s) p t \<Longrightarrow> size t < k \<Longrightarrow> maxDepth_st k p s = (Some (maxDepth t), s)"
proof (induction t arbitrary: p k)
  case Null
  then obtain k' where "k = Suc k'" by (cases k) auto
  with Null show ?case by simp
next
  case (Node l x r)
  then obtain k' where k: "k = Suc k'" by (cases k) auto
  from Node.prems(1) obtain a where a: "p = Some a"
    "tree_rep (heap s) (left (heap s a)) l" "tree_rep (heap s) (right (heap s a)) r"
    by (auto split: option.splits)
  from Node.IH(1)[OF a(2), of k'] Node.IH(2)[OF a(3), of k'] Node.prems(2) k a
  show ?case by simp
qed

lemma findSecondHighest_st_refines:
  "tree_rep (heap s) (root s) troot \<Longrightarrow> tree_rep (heap s) cur t \<Longrightarrow> 2 * size t + 2 \<le> k
     \<Longrightarrow> findSecondHighest_st k cur s = (Some (findSecondHighest_at troot t), s)"
  "tree_rep (heap s) (root s) troot \<Longrightarrow> tree_rep (heap s) cur t \<Longrightarrow> 2 * size t + 1 \<le> k
     \<Longrightarrow> findSecondHighest_loop_st k cur s = (Some (findSecondHighest_loop troot t), s)"
proof (induction troot t and troot t arbitrary: cur k and cur k
    rule: findSecondHighest_at_findSecondHighest_loop.induct)
  case (1 troot current)
  from "1.prems"(3) obtain k' where k: "k = Suc k'" by (cases k) auto
  show ?case
  proof (cases troot)
    case Null
    with "1.prems"(1) k show ?thesis by simp
  next
    case (Node rootl rootx rootr)
    with "1.prems"(1) obtain a where a: "root s = Some a"
      "tree_rep (heap s) (left (heap s a)) rootl" "tree_rep (heap s) (right (heap s a)) rootr"
      by (auto split: option.splits)
    note ln = tree_rep_Null_iff[OF a(2)] and rn = tree_rep_Null_iff[OF a(3)]
    show ?thesis
    proof (cases "rootl = Null \<and> rootr = Null")
      case True
      with Node a ln rn k show ?thesis by simp
    next
      case False
      have "findSecondHighest_loop_st k' cur s = (Some (findSecondHighest_loop troot current), s)"
        by (rule "1.IH"[OF Node False "1.prems"(1,2)]) (use "1.prems"(3) k in simp)
      with False Node a ln rn k show ?thesis by auto
    qed
  qed
next
  case (2 troot)
  then obtain k' where "k = Suc k'" by (cases k) auto
  with 2 show ?case by simp
next
  case (3 troot l x r)
  from "3.prems"(3) obtain k' where k: "k = Suc k'" by (cases k) auto
  from "3.prems"(2) obtain a where a: "cur = Some a" "val (heap s a) = x"
    "tree_rep (heap s) (left (heap s a)) l" "tree_rep (heap s) (right (heap s a)) r"
    by (auto split: option.splits)
  note ln = tree_rep_Null_iff[OF a(3)] and rn = tree_rep_Null_iff[OF a(4)]
  consider (left_only) "l \<noteq> Null" "r = Null" | (right) "r \<noteq> Null" | (none) "l = Null" "r = Null"
    by blast
  then show ?case
  proof cases
    case left_only
    have "findSecondHighest_st k' (left (heap s a)) s = (Some (findSecondHighest_at troot l), s)"
      by (rule "3.IH"(1)[OF _ "3.prems"(1) a(3)]) (use left_only "3.prems"(3) k in simp_all)
    with left_only k a ln rn show ?thesis by simp
  next
    case none
    have "findSecondHighest_loop_st k' (right (heap s a)) s = (Some (findSecondHighest_loop troot r), s)"
      by (rule "3.IH"(2)[OF _ _ "3.prems"(1) a(4)]) (use none "3.prems"(3) k in simp_all)
    with none k a ln rn show ?thesis by simp
  next
    case right
    then obtain rl rx rr where r: "r = Node rl rx rr" by (cases r) simp_all
    with a(4) obtain ra where ra: "right (heap s a) = Some ra"
      "tree_rep (heap s) (left (heap s ra)) rl" "tree_rep (heap s) (right (heap s ra)) rr"
      by (auto split: option.splits)
    note rln = tree_rep_Null_iff[OF ra(2)] and rrn = tree_rep_Null_iff[OF ra(3)]
    show ?thesis
    proof (cases "rl = Null \<and> rr = Null")
      case True
      with r ra rln rrn k a show ?thesis by simp
    next
      case False
      have "findSecondHighest_loop_st k' (right (heap s a)) s = (Some (findSecondHighest_loop troot r), s)"
        by (rule "3.IH"(2)[OF _ _ "3.prems"(1) a(4)]) (use r False "3.prems"(3) k in simp_all)
      with False r ra rln rrn k a show ?thesis by auto
    qed
  qed
qed

lemma read_only_methods_refine:
  assumes rep: "tree_rep (heap s) (root s) t" and fuel: "2 * size t + 2 \<le> k"
  shows "(\<exists>r. find_st k v s = (Some (Inr r), s) \<and> node_rep (heap s) r (find v t))
    \<and> (\<exists>r res. findRecursively_st k v (root s) s = (Some (Inr r), s)
          \<and> findRecursively v t = Inr res \<and> node_rep (heap s) r res)
    \<and> dfsPreOrder_st k s = (Some (dfsPreOrder t), s)
    \<and> dfsInOrder_st k s = (Some (dfsInOrder t), s)
    \<and> dfsPostOrder_st k s = (Some (dfsPostOrder t), s)
    \<and> bfs_st k s = (Some (bfs t), s)
    \<and> dfsInOrderIterative_st k s = (Some (dfsInOrderIterative t), s)
    \<and> isBalanced_st k (root s) s = (Some (isBalanced t), s)
    \<and> findSecondHighest_st k (root s) s = (Some (findSecondHighest t), s)"
proof -
  from fuel have sz: "size t < k" by simp
  note rn = tree_rep_Null_iff[OF rep]
  have 1: "\<exists>r. find_st k v s = (Some (Inr r), s) \<and> node_rep (heap s) r (find v t)"
    by (rule find_st_refines[OF rep sz])
  have 2: "\<exists>r res. findRecursively_st k v (root s) s = (Some (Inr r), s)
          \<and> findRecursively v t = Inr res \<and> node_rep (heap s) r res"
  proof (cases "t = Null")
    case True
    with rn sz obtain k' where "k = Suc k'" "root s = None" by (cases k) auto
    with True show ?thesis by (simp add: findRecursively_def node_rep_def)
  next
    case False
    with rn have "root s \<noteq> None" by simp
    from findRecursively_st_refines[OF rep False this sz, of v] False show ?thesis
      by (simp add: findRecursively_def)
  qed
  have 3: "dfsPreOrder_st k s = (Some (dfsPreOrder t), s)"
    by (simp add: dfsPreOrder_st_def dfsPreOrder_def traverse_pre_st_refines[OF rep sz])
  have 4: "dfsInOrder_st k s = (Some (dfsInOrder t), s)"
    by (simp add: dfsInOrder_st_def dfsInOrder_def traverse_in_st_refines[OF rep sz])
  have 5: "dfsPostOrder_st k s = (Some (dfsPostOrder t), s)"
    by (simp add: dfsPostOrder_st_def dfsPostOrder_def traverse_post_st_refines[OF rep sz])
  have 6: "bfs_st k s = (Some (bfs t), s)"
    using bfs_loop_st_refines[of s "[root s]" "[t]" k "[]"] rep sz
    by (simp add: bfs_st_def bfs_def)
  have 7: "dfsInOrderIterative_st k s = (Some (dfsInOrderIterative t), s)"
    using iter_loop_st_refines[of s "root s" t "[]" "[]" k "[]"] rep fuel
    by (simp add: dfsInOrderIterative_st_def dfsInOrderIterative_def)
  have 8: "isBalanced_st k (root s) s = (Some (isBalanced t), s)"
    using maxDepth_st_refines[OF rep sz] minDepth_st_refines[OF rep sz] rn
    by (simp add: isBalanced_st_def isBalanced_def)
  have 9: "findSecondHighest_st k (root s) s = (Some (findSecondHighest t), s)"
    using findSecondHighest_st_refines(1)[OF rep rep fuel] by (simp add: findSecondHighest_def)
  from 1 2 3 4 5 6 7 8 9 show ?thesis by blast
qed

section \<open>The read-only methods leave the object graph unchanged\<close>

lemma find_loop_st_frame: "snd (find_loop_st k v cur s) = s"
  by (induction k v cur s rule: find_loop_st.induct) simp_all

lemma findRecursively_st_frame: "snd (findRecursively_st k v cur s) = s"
  by (induction k v cur s rule: findRecursively_st.induct) (simp_all split: option.splits)

lemma traverse_pre_st_frame: "snd (traverse_pre_st k node data s) = s"
proof (induction k arbitrary: node data)
  case 0
  show ?case by simp
next
  case (Suc k)
  show ?case
  proof (cases node)
    case None
    then show ?thesis by simp
  next
    case (Some a)
    obtain res s1 where l: "traverse_pre_st k (left (heap s a)) (data @ [val (heap s a)]) s = (res, s1)"
      by (cases "traverse_pre_st k (left (heap s a)) (data @ [val (heap s a)]) s")
    with Suc[of "left (heap s a)" "data @ [val (heap s a)]"] have "s1 = s" by simp
    with l Some Suc show ?thesis by (cases res) simp_all
  qed
qed

lemma traverse_in_st_frame: "snd (traverse_in_st k node data s) = s"
proof (induction k arbitrary: node data)
  case 0
  show ?case by simp
next
  case (Suc k)
  show ?case
  proof (cases node)
    case None
    then show ?thesis by simp
  next
    case (Some a)
    obtain res s1 where l: "traverse_in_st k (left (heap s a)) data s = (res, s1)"
      by (cases "traverse_in_st k (left (heap s a)) data s")
    with Suc[of "left (heap s a)" data] have "s1 = s" by simp
    with l Some Suc show ?thesis by (cases res) simp_all
  qed
qed

lemma traverse_post_st_frame: "snd (traverse_post_st k node data s) = s"
proof (induction k arbitrary: node data)
  case 0
  show ?case by simp
next
  case (Suc k)
  show ?case
  proof (cases node)
    case None
    then show ?thesis by simp
  next
    case (Some a)
    obtain res s1 where l: "traverse_post_st k (left (heap s a)) data s = (res, s1)"
      by (cases "traverse_post_st k (left (heap s a)) data s")
    with Suc[of "left (heap s a)" data] have s1: "s1 = s" by simp
    show ?thesis
    proof (cases res)
      case None
      with l s1 Some show ?thesis by simp
    next
      case (Some data1)
      obtain res2 s2 where r: "traverse_post_st k (right (heap s a)) data1 s = (res2, s2)"
        by (cases "traverse_post_st k (right (heap s a)) data1 s")
      with Suc[of "right (heap s a)" data1] have "s2 = s" by simp
      with l s1 r Some \<open>node = Some a\<close> show ?thesis by (cases res2) simp_all
    qed
  qed
qed

lemma bfs_loop_st_frame: "snd (bfs_loop_st k queue data s) = s"
  by (induction k queue data s rule: bfs_loop_st.induct) simp_all

lemma push_left_st_frame: "snd (push_left_st k cur stack s) = s"
  by (induction k cur stack s rule: push_left_st.induct) simp_all

lemma iter_loop_st_frame: "snd (iter_loop_st k stack cur dfs s) = s"
proof (induction k arbitrary: stack cur dfs)
  case 0
  show ?case by simp
next
  case (Suc k)
  obtain res s1 where p: "push_left_st k cur stack s = (res, s1)"
    by (cases "push_left_st k cur stack s")
  with push_left_st_frame[of k cur stack s] have "s1 = s" by simp
  with p Suc show ?case by (simp split: option.splits list.splits)
qed

lemma minDepth_st_frame: "snd (minDepth_st k node s) = s"
proof (induction k arbitrary: node)
  case 0
  show ?case by simp
next
  case (Suc k)
  show ?case
  proof (cases node)
    case None
    then show ?thesis by simp
  next
    case (Some a)
    obtain res s1 where l: "minDepth_st k (left (heap s a)) s = (res, s1)"
      by (cases "minDepth_st k (left (heap s a)) s")
    with Suc[of "left (heap s a)"] have s1: "s1 = s" by simp
    obtain res2 s2 where r: "minDepth_st k (right (heap s a)) s = (res2, s2)"
      by (cases "minDepth_st k (right (heap s a)) s")
    with Suc[of "right (heap s a)"] have "s2 = s" by simp
    with l s1 r Some show ?thesis by (cases res; cases res2) simp_all
  qed
qed

lemma maxDepth_st_frame: "snd (maxDepth_st k node s) = s"
proof (induction k arbitrary: node)
  case 0
  show ?case by simp
next
  case (Suc k)
  show ?case
  proof (cases node)
    case None
    then show ?thesis by simp
  next
    case (Some a)
    obtain res s1 where l: "maxDepth_st k (left (heap s a)) s = (res, s1)"
      by (cases "maxDepth_st k (left (heap s a)) s")
    with Suc[of "left (heap s a)"] have s1: "s1 = s" by simp
    obtain res2 s2 where r: "maxDepth_st k (right (heap s a)) s = (res2, s2)"
      by (cases "maxDepth_st k (right (heap s a)) s")
    with Suc[of "right (heap s a)"] have "s2 = s" by simp
    with l s1 r Some show ?thesis by (cases res; cases res2) simp_all
  qed
qed

lemma isBalanced_st_frame: "snd (isBalanced_st k current s) = s"
proof -
  obtain res s1 where m: "maxDepth_st k current s = (res, s1)"
    by (cases "maxDepth_st k current s")
  with maxDepth_st_frame[of k current s] have s1: "s1 = s" by simp
  obtain res2 s2 where n: "minDepth_st k current s = (res2, s2)"
    by (cases "minDepth_st k current s")
  with minDepth_st_frame[of k current s] have "s2 = s" by simp
  with m s1 n show ?thesis by (cases res; cases res2) (simp_all add: isBalanced_st_def)
qed

lemma findSecondHighest_st_frame:
  "snd (findSecondHighest_st k current s) = s"
  "snd (findSecondHighest_loop_st k current s) = s"
  by (induction k current s and k current s rule: findSecondHighest_st_findSecondHighest_loop_st.induct)
     (simp_all split: option.splits)

text \<open>
  Claim C10. The read-only operations \<open>find\<close>, \<open>findRecursively\<close>, \<open>dfsPreOrder\<close>,
  \<open>dfsInOrder\<close>, \<open>dfsPostOrder\<close>, \<open>bfs\<close>, \<open>dfsInOrderIterative\<close>, \<open>isBalanced\<close> and
  \<open>findSecondHighest\<close> leave the tree unchanged: the state after the call, that is the
  root reference and the three fields of every node, is the state before the call,
  whatever the call gives (a result, a \<open>TypeError\<close>, or no result within the bound).
\<close>

theorem read_only_methods_frame:
  "snd (find_st k v s) = s
   \<and> snd (findRecursively_st k v (root s) s) = s
   \<and> snd (dfsPreOrder_st k s) = s
   \<and> snd (dfsInOrder_st k s) = s
   \<and> snd (dfsPostOrder_st k s) = s
   \<and> snd (bfs_st k s) = s
   \<and> snd (dfsInOrderIterative_st k s) = s
   \<and> snd (isBalanced_st k (root s) s) = s
   \<and> snd (findSecondHighest_st k (root s) s) = s"
proof -
  have "snd (find_st k v s) = s"
    by (simp add: find_st_def find_loop_st_frame split: option.splits)
  moreover have "snd (dfsPreOrder_st k s) = s"
    by (simp add: dfsPreOrder_st_def traverse_pre_st_frame)
  moreover have "snd (dfsInOrder_st k s) = s"
    by (simp add: dfsInOrder_st_def traverse_in_st_frame)
  moreover have "snd (dfsPostOrder_st k s) = s"
    by (simp add: dfsPostOrder_st_def traverse_post_st_frame)
  moreover have "snd (bfs_st k s) = s"
    by (simp add: bfs_st_def bfs_loop_st_frame)
  moreover have "snd (dfsInOrderIterative_st k s) = s"
    by (simp add: dfsInOrderIterative_st_def iter_loop_st_frame)
  ultimately show ?thesis
    by (simp add: findRecursively_st_frame isBalanced_st_frame findSecondHighest_st_frame)
qed

end
